theory Spec2Isabelle
  imports Main "HOL-Library.Word"
begin

section \<open>The multi-user server: data\<close>

text \<open>
  The embedding follows \<^verbatim>\<open>src/Multi-User Program/mu_server.cpp\<close>. The server keeps one
  listening socket, a vector of heap-allocated client structs and a 100-byte read buffer;
  the event loop of \<^verbatim>\<open>main\<close> either blocks in \<^verbatim>\<open>accept\<close> (no clients) or polls with
  \<^verbatim>\<open>select\<close> and walks the vector by index.

  What the operating system answers (the value of \<^verbatim>\<open>accept\<close>, the descriptors with data
  pending, the result of each \<^verbatim>\<open>read\<close>, whether a \<^verbatim>\<open>write\<close> finds the peer gone) is an
  input of every pass. What the server asks of the operating system is recorded, in
  order, in a trace of events. Undefined behaviour of the C++ (a store outside the
  buffer, a string read that finds no terminator, a pointer moved past the end of a
  string literal, signed overflow of the client counter, \<^verbatim>\<open>vector::at\<close> out of range) is
  a value of type \<open>fault\<close>: the model stops there.

  A \<^verbatim>\<open>write\<close> to a socket whose peer has closed raises \<^verbatim>\<open>SIGPIPE\<close>. The program installs
  a handler for \<^verbatim>\<open>SIGINT\<close> only (line 102), so that signal ends the process on the spot,
  without \<^verbatim>\<open>cleanup\<close>: the state is marked \<open>killed\<close>, and no statement after the
  \<^verbatim>\<open>write\<close> is executed.

  Left out: the start-up code before the loop (argument check, \<^verbatim>\<open>socket\<close>, \<^verbatim>\<open>bind\<close>,
  \<^verbatim>\<open>listen\<close>, registration of the exit and signal handlers), the peer address fields of
  the client struct, the diagnostic lines that print only fixed text and the client id,
  and the error return of \<^verbatim>\<open>select\<close>. The value \<^verbatim>\<open>write\<close> returns is ignored by the source
  and so is not an input. A descriptor set is a set of integers: \<^verbatim>\<open>FD_SET\<close> and
  \<^verbatim>\<open>FD_ISSET\<close> on a descriptor outside \<open>0..<FD_SETSIZE\<close> are undefined in the source and
  are not marked as faults here, and \<^verbatim>\<open>select\<close> is taken to leave nothing in the set at or
  above \<open>nfds\<close> (with descriptors from 0 on and a listening socket opened before every
  client, as in \<^verbatim>\<open>main\<close>, the set holds nothing there).
  The signal handler is a function on states and can be applied to any state, also to
  the one a body of the scan is in between two of its statements (\<open>closing\<close> below).
\<close>

type_synonym byte = "8 word"

text \<open>\<^verbatim>\<open>struct clientSocketStruct\<close>: the id (field \<^verbatim>\<open>id\<close>) and the descriptor.\<close>

record clientSocketStruct =
  id' :: int
  socket :: int

datatype fault =
    OutOfBounds nat
  | StringOverrun
  | SignedOverflow
  | OutOfRange nat
  | BeyondLiteral int

text \<open>The system calls and heap operations of the server, as it issues them.\<close>

datatype event =
    Fcntl bool
  | Accept int
  | Write clientSocketStruct "byte list"
  | Select int "int set"
  | Nanosleep
  | Read clientSocketStruct
  | Says clientSocketStruct "byte list"
  | Close clientSocketStruct
  | Delete clientSocketStruct
  | CloseServer int
  | Unlink string
  | Exit int

text \<open>
  \<open>Fcntl b\<close>: the listening socket's \<^verbatim>\<open>O_NONBLOCK\<close> flag is set to \<open>b\<close>.
  \<open>Accept r\<close>: \<^verbatim>\<open>accept\<close> returned \<open>r\<close>. \<open>Write c bs\<close>: \<^verbatim>\<open>write\<close> on the socket of \<open>c\<close>
  was handed the bytes \<open>bs\<close>. \<open>Select n fds\<close>: \<^verbatim>\<open>select\<close> was called with \<open>nfds = n\<close> and
  the read set \<open>fds\<close>. \<open>Read c\<close>: \<^verbatim>\<open>read\<close> on the socket of \<open>c\<close>. \<open>Says c t\<close>: the line
  \<^verbatim>\<open>cout << buffer\<close> printed the text \<open>t\<close>. \<open>Close c\<close>, \<open>Delete c\<close>: the two statements of
  \<^verbatim>\<open>closeSocket\<close>. \<open>CloseServer fd\<close>, \<open>Unlink path\<close>, \<open>Exit status\<close>: shutdown.
\<close>

datatype read_result = ReadError | ReadBytes "byte list"

text \<open>
  The answers of the operating system during one pass of the loop: the value \<^verbatim>\<open>accept\<close>
  returns if it is called, the descriptors that have data pending when \<^verbatim>\<open>select\<close> looks,
  what \<^verbatim>\<open>read\<close> delivers for a client (\<open>ReadError\<close>: a negative result;
  \<open>ReadBytes []\<close>: zero bytes, the peer has closed), and whether a \<^verbatim>\<open>write\<close> to a client
  finds its peer gone and raises \<^verbatim>\<open>SIGPIPE\<close>.
\<close>

record env =
  accepted :: int
  ready :: "int set"
  received :: "clientSocketStruct \<Rightarrow> read_result"
  broken :: "clientSocketStruct \<Rightarrow> bool"

text \<open>
  The globals of the file and the locals of \<^verbatim>\<open>main\<close> that live across passes; \<open>killed\<close>
  says that \<^verbatim>\<open>SIGPIPE\<close> has ended the process.
\<close>

record server =
  serverSocket :: int
  socketFile :: string
  clientSockets :: "clientSocketStruct list"
  count :: int
  buffer :: "byte list"
  readset :: "int set"
  trace :: "event list"
  killed :: bool

section \<open>The multi-user server: operations\<close>

text \<open>A string literal as the array the compiler lays out: its characters and a zero byte.\<close>

definition c_literal :: "string \<Rightarrow> byte list" where
  "c_literal s = map of_char s @ [0]"

definition sizeof :: "byte list \<Rightarrow> nat" where
  "sizeof a = length a"

definition HELLO :: "byte list" where
  "HELLO = c_literal ''HELLO''"

definition ENTERCMD :: "byte list" where
  "ENTERCMD = c_literal ''ENTERCMD''"

text \<open>The literal \<^verbatim>\<open>"quit\0"\<close> of line 202: an explicit zero byte, then the implicit one.\<close>

definition quit_literal :: "byte list" where
  "quit_literal = c_literal (''quit'' @ [CHR 0x00])"

text \<open>A read of a C string from the start of an array: the bytes before the first zero.\<close>

definition c_str :: "byte list \<Rightarrow> fault + byte list" where
  "c_str a = (if 0 \<in> set a then Inr (takeWhile (\<lambda>b. b \<noteq> 0) a) else Inl StringOverrun)"

text \<open>\<^verbatim>\<open>strcmp\<close>: bytes are compared pairwise up to the first difference or a zero byte.\<close>

fun strcmp :: "byte list \<Rightarrow> byte list \<Rightarrow> fault + int" where
  "strcmp (x # xs) (y # ys) =
     (if x = y then (if x = 0 then Inr 0 else strcmp xs ys)
      else Inr (if x < y then - 1 else 1))"
| "strcmp [] ys = Inl StringOverrun"
| "strcmp xs [] = Inl StringOverrun"

text \<open>\<^verbatim>\<open>a[k] = v\<close> on an array of \<open>length a\<close> bytes.\<close>

definition store :: "byte list \<Rightarrow> int \<Rightarrow> byte \<Rightarrow> fault + byte list" where
  "store a k v =
     (if 0 \<le> k \<and> k < int (length a) then Inr (a[nat k := v]) else Inl (OutOfBounds (nat k)))"

text \<open>
  \<^verbatim>\<open>read(fd, buffer, sizeof(buffer))\<close>: at most \<open>sizeof buffer\<close> bytes are delivered into the
  front of the buffer, the rest of the buffer keeps its old content.
\<close>

definition read' :: "read_result \<Rightarrow> byte list \<Rightarrow> int \<times> byte list" where
  "read' r buf =
     (case r of
        ReadError \<Rightarrow> (- 1, buf)
      | ReadBytes p \<Rightarrow>
          (int (min (length p) (sizeof buf)),
           take (sizeof buf) p @ drop (min (length p) (sizeof buf)) buf))"

text \<open>
  \<^verbatim>\<open>write(fd, a, n)\<close>: the call is recorded with the bytes it is handed; if the peer is
  gone the process is killed.
\<close>

definition write' :: "env \<Rightarrow> clientSocketStruct \<Rightarrow> byte list \<Rightarrow> nat \<Rightarrow> server \<Rightarrow> server" where
  "write' e c a n s =
     s\<lparr>trace := trace s @ [Write c (take n a)], killed := (killed s \<or> broken e c)\<rparr>"

text \<open>
  \<^verbatim>\<open>perror("client socket " + id)\<close> (line 180): the literal is an array of 15 bytes and
  the pointer is moved \<open>id\<close> bytes into it before it is read as a C string.
\<close>

definition pointer_add :: "byte list \<Rightarrow> int \<Rightarrow> fault + byte list" where
  "pointer_add a k =
     (if 0 \<le> k \<and> k \<le> int (length a) then Inr (drop (nat k) a) else Inl (BeyondLiteral k))"

definition perror_arg :: "int \<Rightarrow> fault + byte list" where
  "perror_arg k =
     (case pointer_add (c_literal ''client socket '') k of
        Inl f \<Rightarrow> Inl f
      | Inr a \<Rightarrow> c_str a)"

text \<open>\<^verbatim>\<open>closeSocket\<close> (lines 307-314).\<close>

definition closeSocket :: "clientSocketStruct \<Rightarrow> server \<Rightarrow> server" where
  "closeSocket c s = s\<lparr>trace := trace s @ [Close c, Delete c]\<rparr>"

text \<open>\<^verbatim>\<open>clientSockets.erase(clientSockets.begin() + i)\<close>.\<close>

definition erase :: "nat \<Rightarrow> server \<Rightarrow> server" where
  "erase i s = s\<lparr>clientSockets := take i (clientSockets s) @ drop (Suc i) (clientSockets s)\<rparr>"

text \<open>The body of the scan (lines 175-217) at index \<open>i\<close>.\<close>

definition serve :: "env \<Rightarrow> nat \<Rightarrow> server \<Rightarrow> fault + server" where
  "serve e i s =
     (if length (clientSockets s) \<le> i then Inl (OutOfRange i)
      else
        (let c = clientSockets s ! i in
         if socket c \<in> readset s then
           (let r = read' (received e c) (buffer s);
                bytes = fst r;
                s1 = s\<lparr>buffer := snd r, trace := trace s @ [Read c]\<rparr>
            in if bytes < 0 then
                 (case perror_arg (id' c) of
                    Inl f \<Rightarrow> Inl f
                  | Inr msg \<Rightarrow> Inr (erase i (closeSocket c s1)))
               else if bytes = 0 then Inr (erase i (closeSocket c s1))
               else
                 (case store (buffer s1) bytes 0 of
                    Inl f \<Rightarrow> Inl f
                  | Inr b \<Rightarrow>
                      (case c_str b of
                         Inl f \<Rightarrow> Inl f
                       | Inr text \<Rightarrow>
                           (let s2 = s1\<lparr>buffer := b, trace := trace s1 @ [Says c text]\<rparr> in
                            case strcmp b quit_literal of
                              Inl f \<Rightarrow> Inl f
                            | Inr d \<Rightarrow>
                                if d = 0 then Inr (erase i (closeSocket c s2))
                                else Inr (write' e c ENTERCMD (sizeof ENTERCMD) s2)))))
         else Inr s))"

text \<open>
  The state of the body at index \<open>i\<close> between \<^verbatim>\<open>closeSocket\<close> (line 193) and \<^verbatim>\<open>erase\<close>
  (line 196), when \<^verbatim>\<open>read\<close> has returned 0 bytes: the client is closed and deleted and
  still in the vector.
\<close>

definition closing :: "nat \<Rightarrow> server \<Rightarrow> server" where
  "closing i s =
     closeSocket (clientSockets s ! i) (s\<lparr>trace := trace s @ [Read (clientSockets s ! i)]\<rparr>)"

text \<open>
  The scan \<^verbatim>\<open>for(int i=0; i < clientSockets.size(); i++)\<close> (lines 173-218): the index
  moves on after every body, also after one that erased the element at \<open>i\<close>. A body
  whose \<^verbatim>\<open>write\<close> killed the process is the last one.
\<close>

function scan :: "env \<Rightarrow> nat \<Rightarrow> server \<Rightarrow> fault + server" where
  "scan e i s =
     (if i < length (clientSockets s) then
        (case serve e i s of
           Inl f \<Rightarrow> Inl f
         | Inr s' \<Rightarrow> if killed s' then Inr s' else scan e (i + 1) s')
      else Inr s)"
  by pat_completeness auto
termination
  by (relation "measure (\<lambda>(e, i, s). length (clientSockets s) - i)")
     (auto simp: serve_def Let_def erase_def closeSocket_def write'_def
           split: if_splits sum.splits)

text \<open>
  Lines 131-139 and 162-170: \<^verbatim>\<open>accept\<close>, the id from \<^verbatim>\<open>++count\<close>, the greeting, and
  \<^verbatim>\<open>push_back\<close>. Neither the value of \<^verbatim>\<open>accept\<close> nor that of \<^verbatim>\<open>write\<close> is tested; if the
  \<^verbatim>\<open>write\<close> kills the process, \<^verbatim>\<open>push_back\<close> is not reached.
\<close>

definition accept_client :: "env \<Rightarrow> server \<Rightarrow> fault + server" where
  "accept_client e s =
     (if count s = 2147483647 then Inl SignedOverflow
      else
        (let c = \<lparr>id' = count s + 1, socket = accepted e\<rparr>;
             s1 = s\<lparr>count := count s + 1, trace := trace s @ [Accept (accepted e)]\<rparr>;
             s2 = write' e c HELLO (sizeof HELLO) s1
         in if killed s2 then Inr s2
            else Inr (s2\<lparr>clientSockets := clientSockets s2 @ [c]\<rparr>)))"

text \<open>\<^verbatim>\<open>prepareFDReadSet\<close> (lines 275-297): the loop over the clients, then the function.\<close>

fun add_clients :: "clientSocketStruct list \<Rightarrow> int \<times> int set \<Rightarrow> int \<times> int set" where
  "add_clients [] acc = acc"
| "add_clients (c # cs) (maxFD, fds) =
     add_clients cs (if socket c > maxFD then socket c else maxFD, insert (socket c) fds)"

definition prepareFDReadSet :: "server \<Rightarrow> int \<times> server" where
  "prepareFDReadSet s =
     (let r = add_clients (clientSockets s) (0, insert (serverSocket s) {})
      in (fst r, s\<lparr>readset := snd r\<rparr>))"

text \<open>
  \<^verbatim>\<open>select(nfds, &readset, NULL, NULL, &timeout)\<close> with a zero timeout: of the descriptors
  in the set, those in \<open>0..<nfds\<close> are examined; the set is overwritten with the ones that
  have data pending and their number is returned.
\<close>

definition observable :: "int \<Rightarrow> int set \<Rightarrow> int set" where
  "observable nfds fds = fds \<inter> {0..<nfds}"

definition select' :: "int \<Rightarrow> int set \<Rightarrow> server \<Rightarrow> int \<times> server" where
  "select' nfds rdy s =
     (let r = observable nfds (readset s) \<inter> rdy
      in (int (card r), s\<lparr>readset := r, trace := trace s @ [Select nfds (readset s)]\<rparr>))"

definition fcntl' :: "bool \<Rightarrow> server \<Rightarrow> server" where
  "fcntl' b s = s\<lparr>trace := trace s @ [Fcntl b]\<rparr>"

definition nanosleep :: "server \<Rightarrow> server" where
  "nanosleep s = s\<lparr>trace := trace s @ [Nanosleep]\<rparr>"

text \<open>One pass of \<^verbatim>\<open>for(;;)\<close> in \<^verbatim>\<open>main\<close> (lines 124-220).\<close>

definition main_loop :: "env \<Rightarrow> server \<Rightarrow> fault + server" where
  "main_loop e s =
     (if length (clientSockets s) = 0 then accept_client e (fcntl' False s)
      else
        (let p = prepareFDReadSet (fcntl' True s);
             q = select' (fst p + 1) (ready e) (snd p)
         in if fst q = 0 then Inr (nanosleep (snd q))
            else
              (case (if serverSocket (snd q) \<in> readset (snd q) then accept_client e (snd q)
                     else Inr (snd q)) of
                 Inl f \<Rightarrow> Inl f
               | Inr s' \<Rightarrow> if killed s' then Inr s' else scan e 0 s')))"

text \<open>
  The loop never ends by itself; a run is a finite number of passes, one per input. A
  killed process makes no further pass.
\<close>

fun run :: "env list \<Rightarrow> server \<Rightarrow> fault + server" where
  "run [] s = Inr s"
| "run (e # es) s =
     (if killed s then Inr s
      else case main_loop e s of Inl f \<Rightarrow> Inl f | Inr s' \<Rightarrow> run es s')"

text \<open>\<^verbatim>\<open>cleanup\<close> (lines 234-247), registered with \<^verbatim>\<open>atexit\<close>.\<close>

definition cleanup :: "server \<Rightarrow> server" where
  "cleanup s =
     (let s1 = s\<lparr>trace := trace s @ [CloseServer (serverSocket s)]\<rparr>;
          s2 = foldl (\<lambda>t c. closeSocket c t) s1 (clientSockets s1)
      in s2\<lparr>trace := trace s2 @ [Unlink (socketFile s2)]\<rparr>)"

text \<open>\<^verbatim>\<open>exit\<close> runs the registered handler and ends the process.\<close>

definition exit' :: "int \<Rightarrow> server \<Rightarrow> server" where
  "exit' status s = (let s1 = cleanup s in s1\<lparr>trace := trace s1 @ [Exit status]\<rparr>)"

text \<open>\<^verbatim>\<open>signalHandler\<close> (lines 257-264): \<^verbatim>\<open>exit(EXIT_SUCCESS)\<close>.\<close>

definition signalHandler :: "int \<Rightarrow> server \<Rightarrow> server" where
  "signalHandler signal s = exit' 0 s"

text \<open>The state in which \<^verbatim>\<open>main\<close> enters the loop; the buffer holds whatever was there.\<close>

definition startup :: "int \<Rightarrow> string \<Rightarrow> byte list \<Rightarrow> server" where
  "startup fd path mem =
     \<lparr>serverSocket = fd, socketFile = path, clientSockets = [], count = 0,
      buffer = take 100 mem @ replicate (100 - length mem) 0, readset = {}, trace = [],
      killed = False\<rparr>"

section \<open>Vocabulary of the properties\<close>

text \<open>
  The text the server sees in a payload: \<^verbatim>\<open>cout << buffer\<close> and \<^verbatim>\<open>strcmp\<close> read the buffer as
  a C string, so they see the bytes before the first zero byte.
\<close>

definition text_of :: "byte list \<Rightarrow> byte list" where
  "text_of p = takeWhile (\<lambda>b. b \<noteq> 0) p"

text \<open>The client an event concerns, if any.\<close>

fun about :: "event \<Rightarrow> clientSocketStruct option" where
  "about (Write c p) = Some c"
| "about (Read c) = Some c"
| "about (Says c t) = Some c"
| "about (Close c) = Some c"
| "about (Delete c) = Some c"
| "about ev = None"

text \<open>
  The history of one client, read off the trace. \<open>Fresh\<close>: nothing has happened on it.
  \<open>Greeted\<close>: the greeting was written and nothing since. \<open>Reading\<close>: a read was issued.
  \<open>Heard\<close>: the read delivered a text. \<open>Prompted\<close>: the prompt was written and nothing
  since. \<open>Closed\<close>: the socket was closed. \<open>Gone\<close>: the struct was deleted as well.
  \<open>Bad\<close>: anything else, such as a read with no greeting or prompt outstanding, a second
  prompt in a row, a second close, or any event after the close and the delete.
\<close>

datatype phase = Fresh | Greeted | Reading | Heard | Prompted | Closed | Gone | Bad

fun advance :: "phase \<Rightarrow> event \<Rightarrow> phase" where
  "advance Fresh (Write c p) = (if p = HELLO then Greeted else Bad)"
| "advance Greeted (Read c) = Reading"
| "advance Prompted (Read c) = Reading"
| "advance Reading (Says c t) = Heard"
| "advance Heard (Write c p) = (if p = ENTERCMD then Prompted else Bad)"
| "advance Reading (Close c) = Closed"
| "advance Heard (Close c) = Closed"
| "advance Greeted (Close c) = Closed"
| "advance Prompted (Close c) = Closed"
| "advance Closed (Delete c) = Gone"
| "advance ph ev = Bad"

definition phase :: "clientSocketStruct \<Rightarrow> event list \<Rightarrow> phase" where
  "phase c tr = foldl advance Fresh (filter (\<lambda>ev. about ev = Some c) tr)"

text \<open>
  The invariant of the loop. Every event of the trace concerns a client whose id has been
  handed out; the vector holds no client twice; every client in it has an id that has
  been handed out and waits with a greeting or a prompt outstanding.
\<close>

definition known :: "server \<Rightarrow> event \<Rightarrow> bool" where
  "known s ev = (\<forall>c \<in> set_option (about ev). id' c \<le> count s)"

definition waiting :: "server \<Rightarrow> clientSocketStruct \<Rightarrow> bool" where
  "waiting s c =
     (id' c \<le> count s \<and> (phase c (trace s) = Greeted \<or> phase c (trace s) = Prompted))"

definition Inv :: "server \<Rightarrow> bool" where
  "Inv s =
     (distinct (clientSockets s) \<and> (\<forall>c \<in> set (clientSockets s). waiting s c) \<and>
      (\<forall>ev \<in> set (trace s). known s ev))"

text \<open>
  The full invariant adds the size of the buffer and the clients outside the vector:
  nothing has happened on them yet, or they have been closed and deleted.
\<close>

definition Conf :: "server \<Rightarrow> bool" where
  "Conf s =
     (Inv s \<and> length (buffer s) = 100 \<and>
      (\<forall>c. c \<notin> set (clientSockets s) \<longrightarrow>
           phase c (trace s) = Fresh \<or> phase c (trace s) = Gone))"

text \<open>
  The events of one body of the scan on client \<open>c\<close>: it is kept (not ready, or answered
  with a prompt) or dropped (closed, deleted and erased).
\<close>

definition kept :: "clientSocketStruct \<Rightarrow> event list \<Rightarrow> bool" where
  "kept c evs = (evs = [] \<or> (\<exists>t. evs = [Read c, Says c t, Write c ENTERCMD]))"

definition dropped :: "clientSocketStruct \<Rightarrow> event list \<Rightarrow> bool" where
  "dropped c evs =
     (evs = [Read c, Close c, Delete c] \<or> (\<exists>t. evs = [Read c, Says c t, Close c, Delete c]))"

definition served :: "nat \<Rightarrow> server \<Rightarrow> server \<Rightarrow> bool" where
  "served i s s' =
     (i < length (clientSockets s) \<and> count s' = count s \<and> readset s' = readset s \<and>
      serverSocket s' = serverSocket s \<and> socketFile s' = socketFile s \<and>
      length (buffer s') = length (buffer s) \<and> (killed s \<longrightarrow> killed s') \<and>
      (\<exists>evs. trace s' = trace s @ evs \<and>
         (clientSockets s' = clientSockets s \<and> kept (clientSockets s ! i) evs \<or>
          clientSockets s' = take i (clientSockets s) @ drop (Suc i) (clientSockets s) \<and>
          dropped (clientSockets s ! i) evs)))"

text \<open>The payloads handed to \<^verbatim>\<open>write\<close>, in order.\<close>

fun payloads :: "event list \<Rightarrow> byte list list" where
  "payloads [] = []"
| "payloads (Write c p # tr) = p # payloads tr"
| "payloads (ev # tr) = payloads tr"


text \<open>
  Inputs for concrete runs: three clients as \<^verbatim>\<open>accept\<close> would create them first, a pass
  in which \<^verbatim>\<open>accept\<close> answers \<open>fd\<close> while the descriptors \<open>fds\<close> have data pending, and a
  pass in which the listed clients have data pending and \<^verbatim>\<open>read\<close> answers as listed. No
  peer is gone when the server writes.
\<close>

definition alice :: clientSocketStruct where
  "alice = \<lparr>id' = 1, socket = 4\<rparr>"

definition bob :: clientSocketStruct where
  "bob = \<lparr>id' = 2, socket = 5\<rparr>"

definition carol :: clientSocketStruct where
  "carol = \<lparr>id' = 3, socket = 6\<rparr>"

definition connects :: "int \<Rightarrow> int set \<Rightarrow> env" where
  "connects fd fds =
     \<lparr>accepted = fd, ready = fds, received = (\<lambda>c. ReadError), broken = (\<lambda>c. False)\<rparr>"

definition sends :: "(clientSocketStruct \<times> read_result) list \<Rightarrow> env" where
  "sends xs =
     \<lparr>accepted = - 1, ready = set (map (socket \<circ> fst) xs),
      received = (\<lambda>c. case map_of xs c of Some r \<Rightarrow> r | None \<Rightarrow> ReadError),
      broken = (\<lambda>c. False)\<rparr>"

text \<open>
  The state after the first client has connected, and the state after that client has
  sent the three bytes \<^verbatim>\<open>ls\0\<close> and has been answered.
\<close>

definition one_client :: server where
  "one_client =
     \<lparr>serverSocket = 3, socketFile = ''mu.sock'', clientSockets = [alice], count = 1,
      buffer = replicate 100 0, readset = {}, trace = [Fcntl False, Accept 4, Write alice HELLO],
      killed = False\<rparr>"

definition prompted_once :: server where
  "prompted_once =
     \<lparr>serverSocket = 3, socketFile = ''mu.sock'', clientSockets = [alice], count = 1,
      buffer = [108, 115, 0] @ replicate 97 0, readset = {4},
      trace = [Fcntl False, Accept 4, Write alice HELLO, Fcntl True, Select 5 {4, 3},
               Read alice, Says alice [108, 115], Write alice ENTERCMD],
      killed = False\<rparr>"

text \<open>
  The second pass with alice alone in the vector, at line 159: \<^verbatim>\<open>select\<close> has returned and
  left the descriptors \<open>fds\<close> in the set.
\<close>

definition polled :: "int set \<Rightarrow> server" where
  "polled fds =
     \<lparr>serverSocket = 3, socketFile = ''mu.sock'', clientSockets = [alice], count = 1,
      buffer = replicate 100 0, readset = fds,
      trace = [Fcntl False, Accept 4, Write alice HELLO, Fcntl True, Select 5 {4, 3}],
      killed = False\<rparr>"

section \<open>Library\<close>

subsection \<open>Closing in a loop\<close>

lemma foldl_closeSocket:
  "foldl (\<lambda>t c. closeSocket c t) s cs =
     s\<lparr>trace := trace s @ concat (map (\<lambda>c. [Close c, Delete c]) cs)\<rparr>"
  by (induction cs arbitrary: s) (simp_all add: closeSocket_def)

subsection \<open>C strings\<close>

text \<open>\<^verbatim>\<open>strcmp\<close> returns 0 exactly when the two texts are equal.\<close>

lemma strcmp_text:
  "0 \<in> set a \<Longrightarrow> 0 \<in> set b \<Longrightarrow>
   \<exists>d. strcmp a b = Inr d \<and> (d = 0 \<longleftrightarrow> text_of a = text_of b)"
proof (induction a b rule: strcmp.induct)
  case (1 x xs y ys)
  then show ?case by (auto simp: text_of_def)
qed simp_all

lemma quit_literal_bytes: "quit_literal = [113, 117, 105, 116, 0, 0]"
  by (simp add: quit_literal_def c_literal_def)

lemma text_of_quit_literal: "text_of quit_literal = [113, 117, 105, 116]"
  by (simp add: quit_literal_bytes text_of_def)

lemma text_of_terminated:
  "length p < length buf \<Longrightarrow>
   text_of ((p @ drop (length p) buf)[length p := 0]) = text_of p"
proof -
  assume a: "length p < length buf"
  then obtain r rs where r: "drop (length p) buf = r # rs"
    by (cases "drop (length p) buf") auto
  show ?thesis
    by (simp add: r list_update_append text_of_def takeWhile_append takeWhile_eq_all_conv[THEN iffD2])
qed

lemma zero_in_terminated:
  "length p < length buf \<Longrightarrow> 0 \<in> set ((p @ drop (length p) buf)[length p := 0])"
proof -
  assume a: "length p < length buf"
  then obtain r rs where r: "drop (length p) buf = r # rs"
    by (cases "drop (length p) buf") auto
  show ?thesis by (simp add: r list_update_append)
qed

subsection \<open>The body of the scan, case by case\<close>

lemma serve_idle:
  "i < length (clientSockets s) \<Longrightarrow> socket (clientSockets s ! i) \<notin> readset s \<Longrightarrow>
   serve e i s = Inr s"
  by (simp add: serve_def)

lemma perror_arg_cases:
  "perror_arg k =
     (if k < 0 \<or> 15 < k then Inl (BeyondLiteral k)
      else if k = 15 then Inl StringOverrun
      else Inr (drop (nat k) (map of_char ''client socket '')))"
proof -
  have z: "0 \<notin> set (drop n (map of_char ''client socket '' :: byte list))" for n
  proof
    assume "0 \<in> set (drop n (map of_char ''client socket '' :: byte list))"
    then have "0 \<in> set (map of_char ''client socket '' :: byte list)" by (rule in_set_dropD)
    then show False by simp
  qed
  show ?thesis
  proof (cases "0 \<le> k \<and> k < 15")
    case True
    then have n: "nat k \<le> 14" by arith
    have "drop (nat k) (c_literal ''client socket '') =
          drop (nat k) (map of_char ''client socket '') @ [0]"
      unfolding c_literal_def drop_append using n by simp
    then show ?thesis
      using True z[of "nat k"]
      by (simp add: perror_arg_def pointer_add_def c_str_def c_literal_def takeWhile_append
          takeWhile_eq_all_conv[THEN iffD2])
  next
    case False
    then show ?thesis
      by (auto simp: perror_arg_def pointer_add_def c_str_def c_literal_def)
  qed
qed

lemma serve_error:
  "i < length (clientSockets s) \<Longrightarrow> socket (clientSockets s ! i) \<in> readset s \<Longrightarrow>
   received e (clientSockets s ! i) = ReadError \<Longrightarrow>
   serve e i s =
     (case perror_arg (id' (clientSockets s ! i)) of
        Inl f \<Rightarrow> Inl f
      | Inr msg \<Rightarrow>
          Inr (s\<lparr>clientSockets := take i (clientSockets s) @ drop (Suc i) (clientSockets s),
                 trace := trace s @ [Read (clientSockets s ! i), Close (clientSockets s ! i),
                                     Delete (clientSockets s ! i)]\<rparr>))"
  by (simp add: serve_def read'_def erase_def closeSocket_def Let_def split: sum.splits)

lemma serve_closed:
  "i < length (clientSockets s) \<Longrightarrow> socket (clientSockets s ! i) \<in> readset s \<Longrightarrow>
   received e (clientSockets s ! i) = ReadBytes [] \<Longrightarrow>
   serve e i s =
     Inr (s\<lparr>clientSockets := take i (clientSockets s) @ drop (Suc i) (clientSockets s),
            trace := trace s @ [Read (clientSockets s ! i), Close (clientSockets s ! i),
                                Delete (clientSockets s ! i)]\<rparr>)"
  by (simp add: serve_def read'_def erase_def closeSocket_def sizeof_def Let_def)

lemma serve_data:
  assumes "i < length (clientSockets s)" "socket (clientSockets s ! i) \<in> readset s"
    and "received e (clientSockets s ! i) = ReadBytes p" "p \<noteq> []"
    and "length p < length (buffer s)"
  shows "serve e i s =
     Inr (if text_of p = [113, 117, 105, 116]
          then s\<lparr>clientSockets := take i (clientSockets s) @ drop (Suc i) (clientSockets s),
                 buffer := (p @ drop (length p) (buffer s))[length p := 0],
                 trace := trace s @ [Read (clientSockets s ! i), Says (clientSockets s ! i) (text_of p),
                                     Close (clientSockets s ! i), Delete (clientSockets s ! i)]\<rparr>
          else s\<lparr>buffer := (p @ drop (length p) (buffer s))[length p := 0],
                 trace := trace s @ [Read (clientSockets s ! i), Says (clientSockets s ! i) (text_of p),
                                     Write (clientSockets s ! i) ENTERCMD],
                 killed := (killed s \<or> broken e (clientSockets s ! i))\<rparr>)"
proof -
  let ?b = "(p @ drop (length p) (buffer s))[length p := 0]"
  have z: "0 \<in> set ?b" using assms(5) by (rule zero_in_terminated)
  have t: "text_of ?b = text_of p" using assms(5) by (rule text_of_terminated)
  have q: "0 \<in> set quit_literal" by (simp add: quit_literal_bytes)
  from strcmp_text[OF z q] obtain d where
    d: "strcmp ?b quit_literal = Inr d" "(d = 0) = (text_of p = [113, 117, 105, 116])"
    by (auto simp: t text_of_quit_literal)
  have c: "c_str ?b = Inr (text_of p)" using z t by (simp add: c_str_def text_of_def)
  show ?thesis
    using assms d c
    by (simp add: serve_def read'_def sizeof_def store_def min_def erase_def closeSocket_def
        write'_def Let_def)
qed

lemma serve_overlong:
  assumes "i < length (clientSockets s)" "socket (clientSockets s ! i) \<in> readset s"
    and "received e (clientSockets s ! i) = ReadBytes p" "buffer s \<noteq> []"
    and "length (buffer s) \<le> length p"
  shows "serve e i s = Inl (OutOfBounds (length (buffer s)))"
  using assms by (simp add: serve_def read'_def sizeof_def store_def min_def Let_def)

subsection \<open>Histories\<close>

lemma phase_append:
  "phase c (tr @ evs) = foldl advance (phase c tr) (filter (\<lambda>ev. about ev = Some c) evs)"
  by (simp add: phase_def)

lemma phase_fresh:
  "\<forall>ev \<in> set tr. known s ev \<Longrightarrow> count s < id' c \<Longrightarrow> phase c tr = Fresh"
proof -
  assume a: "\<forall>ev \<in> set tr. known s ev" "count s < id' c"
  have "filter (\<lambda>ev. about ev = Some c) tr = []"
    using a by (auto simp: filter_empty_conv known_def)
  then show ?thesis by (simp add: phase_def)
qed

subsection \<open>Erasing from the vector\<close>

lemma set_erase:
  assumes "distinct xs" "i < length xs"
  shows "set (take i xs @ drop (Suc i) xs) = set xs - {xs ! i}"
proof -
  have x: "xs = take i xs @ xs ! i # drop (Suc i) xs"
    using assms(2) by (rule id_take_nth_drop)
  have "distinct (take i xs @ xs ! i # drop (Suc i) xs)"
    using assms(1) by (simp only: id_take_nth_drop[OF assms(2), symmetric])
  then have n: "xs ! i \<notin> set (take i xs)" "xs ! i \<notin> set (drop (Suc i) xs)" by auto
  have "set xs = set (take i xs) \<union> {xs ! i} \<union> set (drop (Suc i) xs)"
    by (subst x) auto
  with n show ?thesis by auto
qed

lemma distinct_erase: "distinct xs \<Longrightarrow> distinct (take i xs @ drop (Suc i) xs)"
proof (cases "i < length xs")
  case True
  assume d: "distinct xs"
  have "distinct (take i xs @ xs ! i # drop (Suc i) xs)"
    using d by (simp only: id_take_nth_drop[OF True, symmetric])
  then show ?thesis by auto
next
  case False
  assume "distinct xs"
  with False show ?thesis by simp
qed

subsection \<open>The shape of every body of the scan\<close>

lemma serve_nobuf:
  "i < length (clientSockets s) \<Longrightarrow> socket (clientSockets s ! i) \<in> readset s \<Longrightarrow>
   received e (clientSockets s ! i) = ReadBytes p \<Longrightarrow> buffer s = [] \<Longrightarrow>
   serve e i s =
     Inr (s\<lparr>clientSockets := take i (clientSockets s) @ drop (Suc i) (clientSockets s),
            trace := trace s @ [Read (clientSockets s ! i), Close (clientSockets s ! i),
                                Delete (clientSockets s ! i)]\<rparr>)"
  by (simp add: serve_def read'_def erase_def closeSocket_def sizeof_def Let_def)

lemma serve_served:
  assumes "serve e i s = Inr s'"
  shows "served i s s'"
proof -
  have i: "i < length (clientSockets s)"
    using assms by (cases "i < length (clientSockets s)") (simp_all add: serve_def)
  show ?thesis
  proof (cases "socket (clientSockets s ! i) \<in> readset s")
    case False
    with i assms show ?thesis by (simp add: serve_idle served_def kept_def)
  next
    case rdy: True
    show ?thesis
    proof (cases "received e (clientSockets s ! i)")
      case ReadError
      with i rdy assms show ?thesis
        by (auto simp: serve_error served_def dropped_def split: sum.splits)
    next
      case (ReadBytes p)
      consider "buffer s = []" | "p = []" | "p \<noteq> []" "length p < length (buffer s)"
        | "buffer s \<noteq> []" "length (buffer s) \<le> length p"
        by (cases "buffer s = []"; cases "p = []"; cases "length p < length (buffer s)") auto
      then show ?thesis
      proof cases
        case 1
        with i rdy ReadBytes assms show ?thesis by (auto simp: serve_nobuf served_def dropped_def)
      next
        case 2
        with i rdy ReadBytes assms show ?thesis by (auto simp: serve_closed served_def dropped_def)
      next
        case 3
        with i rdy ReadBytes assms show ?thesis
          by (auto simp: serve_data served_def dropped_def kept_def split: if_splits)
      next
        case 4
        with i rdy ReadBytes assms show ?thesis by (simp add: serve_overlong)
      qed
    qed
  qed
qed

lemma served_killed: "served i s s' \<Longrightarrow> killed s \<Longrightarrow> killed s'"
  by (simp add: served_def)

lemma serve_range: "length (clientSockets s) \<le> i \<Longrightarrow> serve e i s = Inl (OutOfRange i)"
  by (simp add: serve_def)

lemma phase_other:
  "\<forall>ev \<in> set evs. about ev \<noteq> Some c \<Longrightarrow> phase c (tr @ evs) = phase c tr"
proof -
  assume "\<forall>ev \<in> set evs. about ev \<noteq> Some c"
  then have "filter (\<lambda>ev. about ev = Some c) evs = []"
    by (simp add: filter_empty_conv)
  then show ?thesis by (simp add: phase_append)
qed

subsection \<open>Induction over the scan, the pass and the run\<close>

text \<open>
  What every body of the scan keeps, the scan keeps; what every step of a pass keeps,
  the pass keeps; what every pass keeps, a run keeps.
\<close>

declare scan.simps [simp del]

lemma scan_preserves:
  "(\<And>i s s'. P s \<Longrightarrow> serve e i s = Inr s' \<Longrightarrow> P s') \<Longrightarrow> P s \<Longrightarrow> scan e i s = Inr s' \<Longrightarrow> P s'"
proof (induction e i s rule: scan.induct)
  case (1 e i s)
  show ?case
  proof (cases "i < length (clientSockets s)")
    case False
    with "1.prems"(3) have "s' = s" by (simp add: scan.simps[of e i s])
    with "1.prems"(2) show ?thesis by simp
  next
    case True
    show ?thesis
    proof (cases "serve e i s")
      case (Inl f)
      with True "1.prems"(3) show ?thesis by (simp add: scan.simps[of e i s])
    next
      case (Inr t)
      have t: "P t" using "1.prems"(2) Inr by (rule "1.prems"(1))
      show ?thesis
      proof (cases "killed t")
        case dead: True
        then have "s' = t" using True Inr "1.prems"(3) by (simp add: scan.simps[of e i s])
        with t show ?thesis by simp
      next
        case live: False
        then have "scan e (i + 1) t = Inr s'"
          using True Inr "1.prems"(3) by (simp add: scan.simps[of e i s])
        with t show ?thesis using "1.IH"[OF True Inr live "1.prems"(1)] by simp
      qed
    qed
  qed
qed

lemma main_loop_preserves:
  assumes run: "main_loop e s = Inr s'" and init: "P s"
    and fds: "\<And>s fds. P s \<Longrightarrow> P (s\<lparr>readset := fds\<rparr>)"
    and quiet: "\<And>s ev. P s \<Longrightarrow> about ev = None \<Longrightarrow> P (s\<lparr>trace := trace s @ [ev]\<rparr>)"
    and acc: "\<And>s s'. P s \<Longrightarrow> accept_client e s = Inr s' \<Longrightarrow> P s'"
    and srv: "\<And>i s s'. P s \<Longrightarrow> serve e i s = Inr s' \<Longrightarrow> P s'"
  shows "P s'"
proof (cases "length (clientSockets s) = 0")
  case True
  have "P (fcntl' False s)" unfolding fcntl'_def using init by (rule quiet) simp
  moreover have "accept_client e (fcntl' False s) = Inr s'"
    using run True by (simp add: main_loop_def)
  ultimately show ?thesis by (rule acc)
next
  case False
  let ?p = "prepareFDReadSet (fcntl' True s)"
  let ?q = "select' (fst ?p + 1) (ready e) (snd ?p)"
  have 1: "P (fcntl' True s)" unfolding fcntl'_def using init by (rule quiet) simp
  have 2: "P (snd ?p)" unfolding prepareFDReadSet_def Let_def snd_conv using 1 by (rule fds)
  have 3: "P (snd ?q)"
  proof -
    have "P ((snd ?p)\<lparr>readset := observable (fst ?p + 1) (readset (snd ?p)) \<inter> ready e\<rparr>)"
      using 2 by (rule fds)
    then have "P ((snd ?p)\<lparr>readset := observable (fst ?p + 1) (readset (snd ?p)) \<inter> ready e,
       trace := trace (snd ?p) @ [Select (fst ?p + 1) (readset (snd ?p))]\<rparr>)"
      using quiet[of "(snd ?p)\<lparr>readset := observable (fst ?p + 1) (readset (snd ?p)) \<inter> ready e\<rparr>"
          "Select (fst ?p + 1) (readset (snd ?p))"] by simp
    then show ?thesis by (simp add: select'_def Let_def)
  qed
  show ?thesis
  proof (cases "fst ?q = 0")
    case True
    have "s' = nanosleep (snd ?q)" using run False True by (simp add: main_loop_def Let_def)
    moreover have "P (nanosleep (snd ?q))" unfolding nanosleep_def using 3 by (rule quiet) simp
    ultimately show ?thesis by simp
  next
    case nz: False
    let ?r = "if serverSocket (snd ?q) \<in> readset (snd ?q) then accept_client e (snd ?q)
              else Inr (snd ?q)"
    have m: "(case ?r of Inl f \<Rightarrow> Inl f | Inr t \<Rightarrow> if killed t then Inr t else scan e 0 t) = Inr s'"
      using run False nz by (simp add: main_loop_def Let_def split del: if_split)
    then obtain t where t: "?r = Inr t" "(if killed t then Inr t else scan e 0 t) = Inr s'"
      by (cases ?r) auto
    have pt: "P t"
    proof (cases "serverSocket (snd ?q) \<in> readset (snd ?q)")
      case True
      then have "accept_client e (snd ?q) = Inr t" using t(1) by simp
      with 3 show ?thesis by (rule acc)
    next
      case False
      then show ?thesis using t(1) 3 by simp
    qed
    show ?thesis
    proof (cases "killed t")
      case True
      with t(2) pt show ?thesis by simp
    next
      case False
      with t(2) have "scan e 0 t = Inr s'" by simp
      with pt show ?thesis
        using scan_preserves[where P = P and e = e and s = t and i = 0 and s' = s'] srv by blast
    qed
  qed
qed

lemma run_preserves:
  "(\<And>e s s'. P s \<Longrightarrow> main_loop e s = Inr s' \<Longrightarrow> P s') \<Longrightarrow> P s \<Longrightarrow> run es s = Inr s' \<Longrightarrow> P s'"
proof (induction es arbitrary: s)
  case Nil
  then show ?case by simp
next
  case (Cons e es)
  show ?case
  proof (cases "killed s")
    case True
    with Cons.prems(2,3) show ?thesis by simp
  next
    case False
    with Cons.prems(3) obtain t where t: "main_loop e s = Inr t" "run es t = Inr s'"
      by (cases "main_loop e s") auto
    have "P t" using Cons.prems(2) t(1) by (rule Cons.prems(1))
    then show ?thesis using Cons.IH[of t] Cons.prems(1) t(2) by blast
  qed
qed

subsection \<open>The invariant\<close>

lemma take_sizeof [simp]: "take (sizeof a) a = a"
  by (simp add: sizeof_def)

lemma accept_client_cases:
  assumes "accept_client e s = Inr s'"
  shows "count s \<noteq> 2147483647 \<and> count s' = count s + 1 \<and> readset s' = readset s \<and>
    serverSocket s' = serverSocket s \<and> socketFile s' = socketFile s \<and> buffer s' = buffer s \<and>
    killed s' = (killed s \<or> broken e \<lparr>id' = count s + 1, socket = accepted e\<rparr>) \<and>
    clientSockets s' =
      (if killed s' then clientSockets s
       else clientSockets s @ [\<lparr>id' = count s + 1, socket = accepted e\<rparr>]) \<and>
    trace s' = trace s @ [Accept (accepted e),
                          Write \<lparr>id' = count s + 1, socket = accepted e\<rparr> HELLO]"
  using assms by (auto simp: accept_client_def Let_def write'_def split: if_splits)

lemma Inv_fields:
  "clientSockets s' = clientSockets s \<Longrightarrow> count s' = count s \<Longrightarrow> trace s' = trace s \<Longrightarrow>
   Inv s' = Inv s"
  by (simp add: Inv_def waiting_def known_def)

lemma advance_round [simp]:
  "ph = Greeted \<or> ph = Prompted \<Longrightarrow>
   foldl advance ph [Read c, Says c t, Write c ENTERCMD] = Prompted"
  by auto

lemma Inv_step:
  assumes inv: "Inv s" and c: "c \<in> set (clientSockets s)" and n: "count s' = count s"
    and tr: "trace s' = trace s @ evs" and ab: "\<forall>ev \<in> set evs. about ev = Some c"
    and sub: "set (clientSockets s') \<subseteq> set (clientSockets s)"
    and dist: "distinct (clientSockets s')"
    and ph: "c \<in> set (clientSockets s') \<Longrightarrow>
             foldl advance (phase c (trace s)) evs = Greeted \<or>
             foldl advance (phase c (trace s)) evs = Prompted"
  shows "Inv s'"
proof -
  have w: "\<forall>x \<in> set (clientSockets s). waiting s x"
    and k: "\<forall>ev \<in> set (trace s). known s ev"
    using inv by (simp_all add: Inv_def)
  have idc: "id' c \<le> count s" using bspec[OF w c] by (simp add: waiting_def)
  have f: "filter (\<lambda>ev. about ev = Some c) evs = evs" using ab by simp
  have "waiting s' x" if x: "x \<in> set (clientSockets s')" for x
  proof (cases "x = c")
    case True
    have "phase c (trace s') = foldl advance (phase c (trace s)) evs"
      by (simp add: tr phase_append f)
    with ph x True idc n show ?thesis by (simp add: waiting_def)
  next
    case False
    have "\<forall>ev \<in> set evs. about ev \<noteq> Some x" using ab False by simp
    then have "phase x (trace s') = phase x (trace s)" unfolding tr by (rule phase_other)
    moreover have "waiting s x" using w sub x by blast
    ultimately show ?thesis using n by (simp add: waiting_def)
  qed
  moreover have "known s' ev" if ev: "ev \<in> set (trace s')" for ev
  proof (cases "ev \<in> set evs")
    case True
    then have "about ev = Some c" using ab by blast
    then show ?thesis using idc n by (simp add: known_def)
  next
    case False
    then have "ev \<in> set (trace s)" using ev tr by simp
    then have "known s ev" using k by blast
    then show ?thesis using n by (simp add: known_def)
  qed
  ultimately show ?thesis using dist by (simp add: Inv_def)
qed

lemma foldl_advance_kept:
  "kept c evs \<Longrightarrow> evs \<noteq> [] \<Longrightarrow> ph = Greeted \<or> ph = Prompted \<Longrightarrow>
   foldl advance ph evs = Prompted"
  by (auto simp: kept_def)

lemma about_kept: "kept c evs \<Longrightarrow> \<forall>ev \<in> set evs. about ev = Some c"
  by (auto simp: kept_def)

lemma about_dropped: "dropped c evs \<Longrightarrow> \<forall>ev \<in> set evs. about ev = Some c"
  by (auto simp: dropped_def)

lemma Inv_serve:
  assumes inv: "Inv s" and srv: "serve e i s = Inr s'"
  shows "Inv s'"
proof -
  let ?c = "clientSockets s ! i"
  have sv: "served i s s'" using srv by (rule serve_served)
  then have i: "i < length (clientSockets s)" and n: "count s' = count s"
    by (simp_all add: served_def)
  from sv obtain evs where tr: "trace s' = trace s @ evs"
    and cases: "clientSockets s' = clientSockets s \<and> kept ?c evs \<or>
      clientSockets s' = take i (clientSockets s) @ drop (Suc i) (clientSockets s) \<and> dropped ?c evs"
    unfolding served_def by (elim conjE exE)
  have d: "distinct (clientSockets s)" using inv by (simp add: Inv_def)
  have cin: "?c \<in> set (clientSockets s)" using i by simp
  have wc: "phase ?c (trace s) = Greeted \<or> phase ?c (trace s) = Prompted"
    using inv cin by (simp add: Inv_def waiting_def)
  have st: "set (take i (clientSockets s) @ drop (Suc i) (clientSockets s)) =
            set (clientSockets s) - {?c}"
    using d i by (rule set_erase)
  have de: "distinct (take i (clientSockets s) @ drop (Suc i) (clientSockets s))"
    using d by (rule distinct_erase)
  from cases show ?thesis
  proof (elim disjE conjE)
    assume a: "clientSockets s' = clientSockets s" "kept ?c evs"
    show ?thesis
    proof (cases "evs = []")
      case True
      with n inv a(1) tr show ?thesis using Inv_fields[of s' s] by simp
    next
      case False
      show ?thesis
        using inv cin n tr about_kept[OF a(2)]
      proof (rule Inv_step)
        show "foldl advance (phase ?c (trace s)) evs = Greeted \<or>
              foldl advance (phase ?c (trace s)) evs = Prompted"
          using foldl_advance_kept[OF a(2) False wc] by simp
      qed (simp_all add: a(1) d)
    qed
  next
    assume a: "clientSockets s' = take i (clientSockets s) @ drop (Suc i) (clientSockets s)"
      "dropped ?c evs"
    show ?thesis
      using inv cin n tr about_dropped[OF a(2)]
    proof (rule Inv_step)
      show "set (clientSockets s') \<subseteq> set (clientSockets s)" unfolding a(1) st by blast
      show "distinct (clientSockets s')" unfolding a(1) by (rule de)
      assume "?c \<in> set (clientSockets s')"
      then have False unfolding a(1) st by simp
      then show "foldl advance (phase ?c (trace s)) evs = Greeted \<or>
            foldl advance (phase ?c (trace s)) evs = Prompted" ..
    qed
  qed
qed

lemma Inv_accept:
  assumes inv: "Inv s" and acc: "accept_client e s = Inr s'"
  shows "Inv s'"
proof -
  let ?c = "\<lparr>id' = count s + 1, socket = accepted e\<rparr>"
  from accept_client_cases[OF acc] have n: "count s' = count s + 1"
    and cs: "clientSockets s' = (if killed s' then clientSockets s else clientSockets s @ [?c])"
    and tr: "trace s' = trace s @ [Accept (accepted e), Write ?c HELLO]"
    by blast+
  have d: "distinct (clientSockets s)" and w: "\<forall>c \<in> set (clientSockets s). waiting s c"
    and k: "\<forall>ev \<in> set (trace s). known s ev"
    using inv by (simp_all add: Inv_def)
  have new: "?c \<notin> set (clientSockets s)" using w by (auto simp: waiting_def)
  have fresh: "phase ?c (trace s) = Fresh" using k by (rule phase_fresh) simp
  have "waiting s' ?c" using fresh n tr by (simp add: waiting_def phase_append)
  moreover have "waiting s' x" if x: "x \<in> set (clientSockets s)" for x
  proof -
    have "x \<noteq> ?c" using x new by blast
    then have "phase x (trace s') = phase x (trace s)"
      unfolding tr by (intro phase_other) auto
    then show ?thesis using bspec[OF w x] n by (simp add: waiting_def)
  qed
  moreover have "\<forall>ev \<in> set (trace s'). known s' ev"
    using k n tr by (fastforce simp: known_def)
  ultimately show ?thesis using d new cs by (simp add: Inv_def)
qed

lemma Inv_main_loop:
  assumes "Inv s" "main_loop e s = Inr s'"
  shows "Inv s'"
  using assms(2,1)
proof (rule main_loop_preserves)
  show "\<And>s fds. Inv s \<Longrightarrow> Inv (s\<lparr>readset := fds\<rparr>)"
    by (simp add: Inv_def waiting_def known_def)
  show "\<And>s ev. Inv s \<Longrightarrow> about ev = None \<Longrightarrow> Inv (s\<lparr>trace := trace s @ [ev]\<rparr>)"
    by (auto simp: Inv_def waiting_def known_def phase_append)
  show "\<And>s s'. Inv s \<Longrightarrow> accept_client e s = Inr s' \<Longrightarrow> Inv s'" by (rule Inv_accept)
  show "\<And>i s s'. Inv s \<Longrightarrow> serve e i s = Inr s' \<Longrightarrow> Inv s'" by (rule Inv_serve)
qed

lemma Inv_scan: "Inv s \<Longrightarrow> scan e i s = Inr s' \<Longrightarrow> Inv s'"
  using scan_preserves[where P = Inv] Inv_serve by blast

lemma Inv_run: "Inv s \<Longrightarrow> run es s = Inr s' \<Longrightarrow> Inv s'"
  using run_preserves[where P = Inv] Inv_main_loop by blast

lemma Inv_startup: "Inv (startup fd path mem)"
  by (simp add: Inv_def startup_def)

lemma foldl_advance_dropped:
  "dropped c evs \<Longrightarrow> ph = Greeted \<or> ph = Prompted \<Longrightarrow> foldl advance ph evs = Gone"
  by (auto simp: dropped_def)

lemma Conf_serve:
  assumes conf: "Conf s" and srv: "serve e i s = Inr s'"
  shows "Conf s'"
proof -
  let ?c = "clientSockets s ! i"
  have inv: "Inv s" using conf by (simp add: Conf_def)
  have sv: "served i s s'" using srv by (rule serve_served)
  then have i: "i < length (clientSockets s)" and b: "length (buffer s') = length (buffer s)"
    by (simp_all add: served_def)
  from sv obtain evs where tr: "trace s' = trace s @ evs"
    and cases: "clientSockets s' = clientSockets s \<and> kept ?c evs \<or>
      clientSockets s' = take i (clientSockets s) @ drop (Suc i) (clientSockets s) \<and> dropped ?c evs"
    unfolding served_def by (elim conjE exE)
  have d: "distinct (clientSockets s)" using inv by (simp add: Inv_def)
  have cin: "?c \<in> set (clientSockets s)" using i by simp
  have wc: "phase ?c (trace s) = Greeted \<or> phase ?c (trace s) = Prompted"
    using inv cin by (simp add: Inv_def waiting_def)
  have st: "set (take i (clientSockets s) @ drop (Suc i) (clientSockets s)) =
            set (clientSockets s) - {?c}"
    using d i by (rule set_erase)
  have ab: "\<forall>ev \<in> set evs. about ev = Some ?c"
    using cases
  proof (elim disjE conjE)
    assume "kept ?c evs"
    then show ?thesis by (rule about_kept)
  next
    assume "dropped ?c evs"
    then show ?thesis by (rule about_dropped)
  qed
  have "phase x (trace s') = Fresh \<or> phase x (trace s') = Gone"
    if x: "x \<notin> set (clientSockets s')" for x
  proof (cases "x = ?c")
    case True
    have dr: "dropped ?c evs"
      using cases
    proof (elim disjE conjE)
      assume "clientSockets s' = clientSockets s"
      with x True cin show ?thesis by simp
    next
      assume "dropped ?c evs"
      then show ?thesis .
    qed
    have f: "filter (\<lambda>ev. about ev = Some ?c) evs = evs" using ab by simp
    have "phase ?c (trace s') = foldl advance (phase ?c (trace s)) evs"
      by (simp add: tr phase_append f)
    then show ?thesis using foldl_advance_dropped[OF dr wc] True by simp
  next
    case False
    have xs: "x \<notin> set (clientSockets s)"
      using cases
    proof (elim disjE conjE)
      assume "clientSockets s' = clientSockets s"
      with x show ?thesis by simp
    next
      assume a: "clientSockets s' = take i (clientSockets s) @ drop (Suc i) (clientSockets s)"
      have "x \<notin> set (clientSockets s) - {?c}"
        using x unfolding a st[symmetric] .
      with False show ?thesis by simp
    qed
    then have old: "phase x (trace s) = Fresh \<or> phase x (trace s) = Gone"
      using conf by (simp add: Conf_def)
    have "\<forall>ev \<in> set evs. about ev \<noteq> Some x" using ab False by simp
    then have "phase x (trace s') = phase x (trace s)" unfolding tr by (rule phase_other)
    with old show ?thesis by simp
  qed
  moreover have "Inv s'" using inv srv by (rule Inv_serve)
  moreover have "length (buffer s') = 100" using conf b by (simp add: Conf_def)
  ultimately show ?thesis by (simp add: Conf_def)
qed

lemma Conf_accept:
  assumes conf: "Conf s" and acc: "accept_client e s = Inr s'" and live: "\<not> killed s'"
  shows "Conf s'"
proof -
  let ?c = "\<lparr>id' = count s + 1, socket = accepted e\<rparr>"
  from accept_client_cases[OF acc] live have cs: "clientSockets s' = clientSockets s @ [?c]"
    and tr: "trace s' = trace s @ [Accept (accepted e), Write ?c HELLO]"
    and b: "buffer s' = buffer s"
    by simp_all
  have "phase x (trace s') = Fresh \<or> phase x (trace s') = Gone"
    if x: "x \<notin> set (clientSockets s')" for x
  proof -
    have "x \<noteq> ?c" "x \<notin> set (clientSockets s)" using x cs by auto
    then have "phase x (trace s') = phase x (trace s)" unfolding tr
      by (intro phase_other) auto
    then show ?thesis using conf \<open>x \<notin> set (clientSockets s)\<close> by (simp add: Conf_def)
  qed
  moreover have "Inv s" using conf by (simp add: Conf_def)
  then have "Inv s'" using acc by (rule Inv_accept)
  ultimately show ?thesis using conf b by (simp add: Conf_def)
qed

lemma Conf_readset: "Conf (s\<lparr>readset := fds\<rparr>) = Conf s"
  by (simp add: Conf_def Inv_def waiting_def known_def)

lemma Conf_quiet: "Conf s \<Longrightarrow> about ev = None \<Longrightarrow> Conf (s\<lparr>trace := trace s @ [ev]\<rparr>)"
  by (simp add: Conf_def Inv_def waiting_def known_def phase_append)

text \<open>
  A client whose greeting killed the process is greeted and not in the vector: \<open>Conf\<close>
  is the invariant of the process as long as it lives.
\<close>

lemma Conf_main_loop:
  assumes "killed s \<or> Conf s" "main_loop e s = Inr s'"
  shows "killed s' \<or> Conf s'"
  using assms(2,1)
proof (rule main_loop_preserves)
  show "\<And>s fds. killed s \<or> Conf s \<Longrightarrow>
          killed (s\<lparr>readset := fds\<rparr>) \<or> Conf (s\<lparr>readset := fds\<rparr>)"
    by (simp add: Conf_readset)
  show "\<And>s ev. killed s \<or> Conf s \<Longrightarrow> about ev = None \<Longrightarrow>
          killed (s\<lparr>trace := trace s @ [ev]\<rparr>) \<or> Conf (s\<lparr>trace := trace s @ [ev]\<rparr>)"
    using Conf_quiet by auto
  show "\<And>s s'. killed s \<or> Conf s \<Longrightarrow> accept_client e s = Inr s' \<Longrightarrow> killed s' \<or> Conf s'"
    using Conf_accept accept_client_cases by blast
  show "\<And>i s s'. killed s \<or> Conf s \<Longrightarrow> serve e i s = Inr s' \<Longrightarrow> killed s' \<or> Conf s'"
    using Conf_serve serve_served[THEN served_killed] by blast
qed

lemma Conf_scan: "Conf s \<Longrightarrow> scan e i s = Inr s' \<Longrightarrow> Conf s'"
  using scan_preserves[where P = Conf] Conf_serve by blast

lemma Conf_run: "Conf s \<Longrightarrow> run es s = Inr s' \<Longrightarrow> killed s' \<or> Conf s'"
  using run_preserves[where P = "\<lambda>s. killed s \<or> Conf s"] Conf_main_loop by blast

lemma Conf_startup: "Conf (startup fd path mem)"
  by (simp add: Conf_def Inv_def startup_def phase_def)

subsection \<open>The trace of a shutdown\<close>

lemma cleanup_trace:
  "trace (cleanup s) =
     trace s @ [CloseServer (serverSocket s)] @
     concat (map (\<lambda>c. [Close c, Delete c]) (clientSockets s)) @ [Unlink (socketFile s)]"
  by (simp add: cleanup_def Let_def foldl_closeSocket)

lemma signalHandler_trace:
  "trace (signalHandler sig s) =
     trace s @ [CloseServer (serverSocket s)] @
     concat (map (\<lambda>c. [Close c, Delete c]) (clientSockets s)) @
     [Unlink (socketFile s), Exit 0]"
  by (simp add: signalHandler_def exit'_def Let_def cleanup_trace)

subsection \<open>Payloads\<close>

lemma HELLO_bytes: "HELLO = [72, 69, 76, 76, 79, 0]"
  by (simp add: HELLO_def c_literal_def)

lemma ENTERCMD_bytes: "ENTERCMD = [69, 78, 84, 69, 82, 67, 77, 68, 0]"
  by (simp add: ENTERCMD_def c_literal_def)

lemma payloads_append: "payloads (tr @ evs) = payloads tr @ payloads evs"
  by (induction tr rule: payloads.induct) simp_all

lemma payloads_quiet: "about ev = None \<Longrightarrow> payloads [ev] = []"
  by (cases ev) simp_all

lemma payloads_kept: "kept c evs \<Longrightarrow> set (payloads evs) \<subseteq> {ENTERCMD}"
  by (auto simp: kept_def)

lemma payloads_dropped: "dropped c evs \<Longrightarrow> payloads evs = []"
  by (auto simp: dropped_def)

lemma payloads_serve:
  assumes "serve e i s = Inr s'" "set (payloads (trace s)) \<subseteq> {HELLO, ENTERCMD}"
  shows "set (payloads (trace s')) \<subseteq> {HELLO, ENTERCMD}"
proof -
  have "served i s s'" using assms(1) by (rule serve_served)
  then obtain evs where tr: "trace s' = trace s @ evs"
    and cases: "kept (clientSockets s ! i) evs \<or> dropped (clientSockets s ! i) evs"
    unfolding served_def by blast
  from cases have "set (payloads evs) \<subseteq> {ENTERCMD}"
  proof
    assume "kept (clientSockets s ! i) evs"
    then show ?thesis by (rule payloads_kept)
  next
    assume "dropped (clientSockets s ! i) evs"
    then show ?thesis by (simp add: payloads_dropped)
  qed
  then show ?thesis using assms(2) by (auto simp: tr payloads_append)
qed

lemma payloads_accept:
  assumes "accept_client e s = Inr s'" "set (payloads (trace s)) \<subseteq> {HELLO, ENTERCMD}"
  shows "set (payloads (trace s')) \<subseteq> {HELLO, ENTERCMD}"
  using accept_client_cases[OF assms(1)] assms(2) by (simp add: payloads_append)

lemma payloads_main_loop:
  assumes "set (payloads (trace s)) \<subseteq> {HELLO, ENTERCMD}" "main_loop e s = Inr s'"
  shows "set (payloads (trace s')) \<subseteq> {HELLO, ENTERCMD}"
  using assms(2,1)
proof (rule main_loop_preserves)
  show "\<And>s fds. set (payloads (trace s)) \<subseteq> {HELLO, ENTERCMD} \<Longrightarrow>
          set (payloads (trace (s\<lparr>readset := fds\<rparr>))) \<subseteq> {HELLO, ENTERCMD}"
    by simp
  show "\<And>s ev. set (payloads (trace s)) \<subseteq> {HELLO, ENTERCMD} \<Longrightarrow> about ev = None \<Longrightarrow>
          set (payloads (trace (s\<lparr>trace := trace s @ [ev]\<rparr>))) \<subseteq> {HELLO, ENTERCMD}"
    by (simp add: payloads_append payloads_quiet)
  show "\<And>s s'. set (payloads (trace s)) \<subseteq> {HELLO, ENTERCMD} \<Longrightarrow> accept_client e s = Inr s' \<Longrightarrow>
          set (payloads (trace s')) \<subseteq> {HELLO, ENTERCMD}"
    using payloads_accept by blast
  show "\<And>i s s'. set (payloads (trace s)) \<subseteq> {HELLO, ENTERCMD} \<Longrightarrow> serve e i s = Inr s' \<Longrightarrow>
          set (payloads (trace s')) \<subseteq> {HELLO, ENTERCMD}"
    using payloads_serve by blast
qed

subsection \<open>Concrete runs\<close>

lemmas eval_simps = main_loop_def Let_def fcntl'_def accept_client_def write'_def
  prepareFDReadSet_def select'_def observable_def nanosleep_def scan.simps
  serve_data serve_idle serve_closed serve_error serve_overlong perror_arg_cases
  startup_def connects_def sends_def alice_def bob_def carol_def text_of_def
  HELLO_def ENTERCMD_def c_literal_def sizeof_def

lemma run_one_client: "run [connects 4 {}] (startup 3 ''mu.sock'' []) = Inr one_client"
  by (simp add: eval_simps one_client_def)

lemma Conf_one_client: "Conf one_client"
  using Conf_run[OF Conf_startup run_one_client] by (simp add: one_client_def)

lemma replicate_update_same: "(replicate n x)[i := x] = replicate n x"
  by (induction n arbitrary: i) (simp_all split: nat.splits)

lemma run_prompted_once:
  "run [connects 4 {}, sends [(alice, ReadBytes [108, 115, 0])]] (startup 3 ''mu.sock'' []) =
   Inr prompted_once"
  by (simp add: eval_simps prompted_once_def replicate_update_same)

subsection \<open>The poll and the first read\<close>

lemma finite_observable: "finite (observable n fds)"
  by (simp add: observable_def)

lemma select_zero:
  "fst (select' n rdy s) = 0 \<longleftrightarrow> observable n (readset s) \<inter> rdy = {}"
  by (simp add: select'_def Let_def finite_observable)

lemma Conf_polled: "Conf (polled fds)"
proof -
  have "Conf (one_client\<lparr>trace := trace one_client @ [Fcntl True]\<rparr>)"
    using Conf_one_client by (rule Conf_quiet) simp
  then have "Conf (one_client\<lparr>trace := trace one_client @ [Fcntl True, Select 5 {4, 3}]\<rparr>)"
    using Conf_quiet[of "one_client\<lparr>trace := trace one_client @ [Fcntl True]\<rparr>" "Select 5 {4, 3}"]
    by simp
  then have "Conf (one_client\<lparr>trace := trace one_client @ [Fcntl True, Select 5 {4, 3}],
                              readset := fds\<rparr>)"
    by (simp only: Conf_readset)
  then show ?thesis by (simp add: polled_def one_client_def)
qed

text \<open>
  \<^verbatim>\<open>accept\<close>, greeting and \<^verbatim>\<open>push_back\<close> in a live process whose greeting finds the peer
  there.
\<close>

lemma accept_client_greets:
  assumes conf: "Conf s" and live: "\<not> killed s" and cnt: "count s \<noteq> 2147483647"
    and peer: "\<not> broken e \<lparr>id' = count s + 1, socket = accepted e\<rparr>"
  shows "\<exists>s'. accept_client e s = Inr s' \<and>
     clientSockets s' = clientSockets s @ [\<lparr>id' = count s + 1, socket = accepted e\<rparr>] \<and>
     trace s' = trace s @ [Accept (accepted e),
                           Write \<lparr>id' = count s + 1, socket = accepted e\<rparr> HELLO] \<and>
     phase \<lparr>id' = count s + 1, socket = accepted e\<rparr> (trace s') = Greeted \<and>
     \<not> killed s' \<and> Conf s'"
proof -
  let ?c = "\<lparr>id' = count s + 1, socket = accepted e\<rparr>"
  let ?s' = "s\<lparr>count := count s + 1, trace := trace s @ [Accept (accepted e), Write ?c HELLO],
               killed := False, clientSockets := clientSockets s @ [?c]\<rparr>"
  have acc: "accept_client e s = Inr ?s'"
    using cnt live peer by (simp add: accept_client_def write'_def Let_def)
  have conf': "Conf ?s'" using conf acc by (rule Conf_accept) simp
  have known: "\<forall>ev \<in> set (trace s). known s ev" using conf by (simp add: Conf_def Inv_def)
  have "phase ?c (trace s) = Fresh" using known by (rule phase_fresh) simp
  then have ph: "phase ?c (trace ?s') = Greeted" by (simp add: phase_append)
  from acc conf' ph show ?thesis by (intro exI[of _ ?s']) simp
qed

text \<open>The body of the scan when \<^verbatim>\<open>read\<close> returns 0 bytes.\<close>

lemma serve_eof:
  assumes conf: "Conf t" and i: "i < length (clientSockets t)"
    and rdy: "socket (clientSockets t ! i) \<in> readset t"
    and rcv: "received e (clientSockets t ! i) = ReadBytes []"
  shows "\<exists>t'. serve e i t = Inr t' \<and>
     clientSockets t' = take i (clientSockets t) @ drop (Suc i) (clientSockets t) \<and>
     clientSockets t ! i \<notin> set (clientSockets t') \<and>
     trace t' = trace t @ [Read (clientSockets t ! i), Close (clientSockets t ! i),
                           Delete (clientSockets t ! i)] \<and>
     phase (clientSockets t ! i) (trace t') = Gone \<and> Conf t'"
proof -
  let ?c = "clientSockets t ! i"
  let ?t' = "t\<lparr>clientSockets := take i (clientSockets t) @ drop (Suc i) (clientSockets t),
               trace := trace t @ [Read ?c, Close ?c, Delete ?c]\<rparr>"
  have srv: "serve e i t = Inr ?t'" using i rdy rcv by (rule serve_closed)
  have d: "distinct (clientSockets t)" using conf by (simp add: Conf_def Inv_def)
  have cin: "?c \<in> set (clientSockets t)" using i by simp
  have w: "phase ?c (trace t) = Greeted \<or> phase ?c (trace t) = Prompted"
    using conf cin by (simp add: Conf_def Inv_def waiting_def)
  have out: "?c \<notin> set (take i (clientSockets t) @ drop (Suc i) (clientSockets t))"
    unfolding set_erase[OF d i] by simp
  have ph: "phase ?c (trace ?t') = Gone" using w by (auto simp: phase_append)
  have "Conf ?t'" using conf srv by (rule Conf_serve)
  with srv out ph show ?thesis by (intro exI[of _ ?t']) simp
qed

text \<open>
  The set that \<^verbatim>\<open>prepareFDReadSet\<close> builds holds the listening socket and the descriptor of
  every client in the vector, whatever the set held before.
\<close>

lemma add_clients_set:
  "snd (add_clients cs (m, fds)) = fds \<union> socket ` set cs"
  by (induction cs arbitrary: m fds) auto

lemma prepareFDReadSet_candidates:
  "readset (snd (prepareFDReadSet s)) = insert (serverSocket s) (socket ` set (clientSockets s)) \<and>
   prepareFDReadSet (s\<lparr>readset := fds\<rparr>) = prepareFDReadSet s"
  by (simp add: prepareFDReadSet_def Let_def add_clients_set)

section \<open>The claims\<close>

subsection \<open>Removal during the scan\<close>

text \<open>
  Claim C1: when a Session is removed during the scan of the ready set, it is not
  revisited in the same pass and every other Session that was ready is still serviced
  exactly once. The code erases the element at \<open>i\<close> and then increments \<open>i\<close>, so the
  Session that moved into place \<open>i\<close> is not looked at in this pass. The run: alice and bob
  connect; in the third pass both have data pending, alice sends \<^verbatim>\<open>quit\<close> and bob sends
  \<^verbatim>\<open>ls\<close>. Alice is closed and erased; bob, who was ready, is never read.
\<close>

theorem scan_skips_after_erase:
  "map_sum id (\<lambda>s. (clientSockets s, trace s))
     (run [connects 4 {}, connects 5 {3},
           sends [(alice, ReadBytes [113, 117, 105, 116]), (bob, ReadBytes [108, 115])]]
        (startup 3 ''mu.sock'' [])) =
   Inr ([bob],
        [Fcntl False, Accept 4, Write alice HELLO,
         Fcntl True, Select 5 {4, 3}, Accept 5, Write bob HELLO,
         Fcntl True, Select 6 {5, 4, 3},
         Read alice, Says alice [113, 117, 105, 116], Close alice, Delete alice])"
  by (simp add: eval_simps)

subsection \<open>The read buffer\<close>

text \<open>
  Claim C2: for every payload up to the maximum of 100 bytes the handling accesses the
  read buffer in bounds only. The code stores the terminating zero at
  \<^verbatim>\<open>buffer[bytes]\<close>; a payload that fills the buffer makes this a store at index 100 of
  an array of 100 bytes.
\<close>

theorem full_buffer_store_out_of_bounds:
  "run [connects 4 {}, sends [(alice, ReadBytes (replicate 100 65))]] (startup 3 ''mu.sock'' []) =
   Inl (OutOfBounds 100)"
  by (simp add: eval_simps)

subsection \<open>The candidate set of the poll\<close>

text \<open>
  Claim C8: on every multiplexed pass the poll can observe the Listening Endpoint and every
  Session of the Registry. \<^verbatim>\<open>prepareFDReadSet\<close> puts all of them into the set, but the
  value it returns starts at 0 and ranges over the client descriptors only, and
  \<^verbatim>\<open>select\<close> examines the descriptors below that value plus one. First run: the
  blocking \<^verbatim>\<open>accept\<close> fails, the struct with descriptor \<open>-1\<close> is stored, and in the next
  pass \<^verbatim>\<open>select\<close> is called with \<open>nfds = 1\<close>: the listening socket 3 has a connection
  pending and is not seen. Second input: a listening socket 5 above the only client
  descriptor 4. That the set itself is built as claimed is \<open>prepareFDReadSet_candidates\<close>.
\<close>

theorem listening_socket_outside_nfds:
  "map_sum id (\<lambda>s. (clientSockets s, trace s))
     (run [connects (- 1) {}, connects 4 {3}] (startup 3 ''mu.sock'' [])) =
   Inr ([\<lparr>id' = 1, socket = - 1\<rparr>],
        [Fcntl False, Accept (- 1), Write \<lparr>id' = 1, socket = - 1\<rparr> HELLO,
         Fcntl True, Select 1 {- 1, 3}, Nanosleep]) \<and>
   3 \<notin> observable 1 {- 1, 3} \<and>
   fst (prepareFDReadSet
          \<lparr>serverSocket = 5, socketFile = ''mu.sock'', clientSockets = [alice], count = 1,
           buffer = replicate 100 0, readset = {}, trace = [], killed = False\<rparr>) = 4 \<and>
   5 \<notin> observable (4 + 1) {4, 5}"
  by (simp add: eval_simps)

subsection \<open>A peer that closes\<close>

text \<open>
  Claim C6: a Session whose peer has closed (its read returns 0 bytes) is removed from the
  Registry within one pass and its connection is closed exactly once over all paths,
  shutdown included, while the loop and the other Sessions are not affected. Two runs of
  the code differ from this.

  First run: alice, bob and carol connect. Carol closes her end; in the fourth pass
  \<^verbatim>\<open>select\<close> reports bob and carol, bob sends \<^verbatim>\<open>quit\<close>; in the fifth it reports alice and
  carol, alice sends \<^verbatim>\<open>quit\<close>. Each time the scan erases the element in front of carol and
  then increments the index, so carol, ready with 0 bytes to read in both passes, is
  never read: she stays in the Registry and her descriptor stays open.

  Second run: alice connects and closes her end. In the second pass the body of the scan
  reads 0 bytes and calls \<^verbatim>\<open>closeSocket\<close> (line 193); a \<^verbatim>\<open>SIGINT\<close> taken before \<^verbatim>\<open>erase\<close>
  (line 196) runs \<^verbatim>\<open>cleanup\<close>, which finds alice in the vector and closes and deletes her
  a second time.
\<close>

theorem peer_close_skipped_and_closed_twice:
  "map_sum id (\<lambda>s. (clientSockets s, trace s))
     (run [connects 4 {}, connects 5 {3}, connects 6 {3},
           sends [(bob, ReadBytes [113, 117, 105, 116]), (carol, ReadBytes [])],
           sends [(alice, ReadBytes [113, 117, 105, 116]), (carol, ReadBytes [])]]
        (startup 3 ''mu.sock'' [])) =
   Inr ([carol],
        [Fcntl False, Accept 4, Write alice HELLO,
         Fcntl True, Select 5 {4, 3}, Accept 5, Write bob HELLO,
         Fcntl True, Select 6 {5, 4, 3}, Accept 6, Write carol HELLO,
         Fcntl True, Select 7 {6, 5, 4, 3},
         Read bob, Says bob [113, 117, 105, 116], Close bob, Delete bob,
         Fcntl True, Select 7 {6, 4, 3},
         Read alice, Says alice [113, 117, 105, 116], Close alice, Delete alice]) \<and>
   run [connects 4 {}] (startup 3 ''mu.sock'' []) = Inr one_client \<and>
   select' (fst (prepareFDReadSet (fcntl' True one_client)) + 1)
       (ready (sends [(alice, ReadBytes [])])) (snd (prepareFDReadSet (fcntl' True one_client))) =
     (1, polled {4}) \<and>
   serve (sends [(alice, ReadBytes [])]) 0 (polled {4}) = Inr (erase 0 (closing 0 (polled {4}))) \<and>
   clientSockets (closing 0 (polled {4})) = [alice] \<and>
   trace (signalHandler 2 (closing 0 (polled {4}))) =
     [Fcntl False, Accept 4, Write alice HELLO, Fcntl True, Select 5 {4, 3},
      Read alice, Close alice, Delete alice,
      CloseServer 3, Close alice, Delete alice, Unlink ''mu.sock'', Exit 0] \<and>
   count_list (trace (signalHandler 2 (closing 0 (polled {4})))) (Close alice) = 2"
proof -
  have 1: "map_sum id (\<lambda>s. (clientSockets s, trace s))
     (run [connects 4 {}, connects 5 {3}, connects 6 {3},
           sends [(bob, ReadBytes [113, 117, 105, 116]), (carol, ReadBytes [])],
           sends [(alice, ReadBytes [113, 117, 105, 116]), (carol, ReadBytes [])]]
        (startup 3 ''mu.sock'' [])) =
   Inr ([carol],
        [Fcntl False, Accept 4, Write alice HELLO,
         Fcntl True, Select 5 {4, 3}, Accept 5, Write bob HELLO,
         Fcntl True, Select 6 {5, 4, 3}, Accept 6, Write carol HELLO,
         Fcntl True, Select 7 {6, 5, 4, 3},
         Read bob, Says bob [113, 117, 105, 116], Close bob, Delete bob,
         Fcntl True, Select 7 {6, 4, 3},
         Read alice, Says alice [113, 117, 105, 116], Close alice, Delete alice])"
    by (simp add: eval_simps)
  have 2: "select' (fst (prepareFDReadSet (fcntl' True one_client)) + 1)
       (ready (sends [(alice, ReadBytes [])])) (snd (prepareFDReadSet (fcntl' True one_client))) =
     (1, polled {4})"
    by (simp add: eval_simps one_client_def polled_def)
  have 3: "serve (sends [(alice, ReadBytes [])]) 0 (polled {4}) =
           Inr (erase 0 (closing 0 (polled {4})))"
    by (simp add: serve_closed sends_def polled_def alice_def erase_def closing_def closeSocket_def)
  have 4: "trace (signalHandler 2 (closing 0 (polled {4}))) =
     [Fcntl False, Accept 4, Write alice HELLO, Fcntl True, Select 5 {4, 3},
      Read alice, Close alice, Delete alice,
      CloseServer 3, Close alice, Delete alice, Unlink ''mu.sock'', Exit 0]"
    by (simp add: signalHandler_trace closing_def closeSocket_def polled_def)
  have 5: "count_list (trace (signalHandler 2 (closing 0 (polled {4})))) (Close alice) = 2"
    unfolding 4 by (simp add: alice_def)
  have 6: "clientSockets (closing 0 (polled {4})) = [alice]"
    by (simp add: closing_def closeSocket_def polled_def)
  from 1 2 3 4 5 6 run_one_client show ?thesis by simp
qed

subsection \<open>Shutdown\<close>



subsection \<open>The payloads on the wire\<close>

text \<open>
  Claim C10: every payload the server sends includes its trailing zero byte: the greeting
  is the 6 bytes of \<^verbatim>\<open>HELLO\<close> and a zero, the prompt the 9 bytes of \<^verbatim>\<open>ENTERCMD\<close> and a
  zero, on every send of every run.
\<close>

theorem payloads_carry_nul:
  assumes "run es (startup fd path mem) = Inr s"
  shows "set (payloads (trace s)) \<subseteq>
           {[0x48, 0x45, 0x4C, 0x4C, 0x4F, 0], [0x45, 0x4E, 0x54, 0x45, 0x52, 0x43, 0x4D, 0x44, 0]} \<and>
         HELLO = [0x48, 0x45, 0x4C, 0x4C, 0x4F, 0] \<and> sizeof HELLO = 6 \<and>
         ENTERCMD = [0x45, 0x4E, 0x54, 0x45, 0x52, 0x43, 0x4D, 0x44, 0] \<and> sizeof ENTERCMD = 9"
proof -
  have "set (payloads (trace (startup fd path mem))) \<subseteq> {HELLO, ENTERCMD}"
    by (simp add: startup_def)
  then have "set (payloads (trace s)) \<subseteq> {HELLO, ENTERCMD}"
    using run_preserves[where P = "\<lambda>s. set (payloads (trace s)) \<subseteq> {HELLO, ENTERCMD}"
        and es = es and s = "startup fd path mem" and s' = s] payloads_main_loop assms
    by blast
  then show ?thesis by (simp add: HELLO_bytes ENTERCMD_bytes sizeof_def)
qed

theorem payloads_carry_nul_witness:
  "run [connects 4 {}, sends [(alice, ReadBytes [108, 115, 0])]] (startup 3 ''mu.sock'' []) =
     Inr prompted_once \<and>
   payloads (trace prompted_once) =
     [[0x48, 0x45, 0x4C, 0x4C, 0x4F, 0], [0x45, 0x4E, 0x54, 0x45, 0x52, 0x43, 0x4D, 0x44, 0]] \<and>
   set (payloads (trace prompted_once)) \<subseteq>
     {[0x48, 0x45, 0x4C, 0x4C, 0x4F, 0], [0x45, 0x4E, 0x54, 0x45, 0x52, 0x43, 0x4D, 0x44, 0]}"
  using payloads_carry_nul[OF run_prompted_once] run_prompted_once
  by (simp add: prompted_once_def HELLO_bytes ENTERCMD_bytes)

subsection \<open>The terminator\<close>

text \<open>
  Claim C4, as amended: for every received payload of 1 to 99 bytes, the Session is
  terminated on the client-quit path if and only if the bytes of the payload before its
  first zero byte (all of them when it has none) are exactly the four bytes \<^verbatim>\<open>quit\<close>,
  case-sensitive and untrimmed; what follows a zero byte inside the payload is not
  compared. Otherwise the Session is kept and prompted. The claim has the comparison
  made over the received byte count with no dependence on zero bytes in the payload.
\<close>

theorem quit_iff_text:
  assumes i: "i < length (clientSockets s)"
    and rdy: "socket (clientSockets s ! i) \<in> readset s"
    and rcv: "received e (clientSockets s ! i) = ReadBytes p"
    and len: "p \<noteq> []" "length p < 100" "length (buffer s) = 100"
  shows "\<exists>s'. serve e i s = Inr s' \<and>
     (if text_of p = [0x71, 0x75, 0x69, 0x74]
      then clientSockets s' = take i (clientSockets s) @ drop (Suc i) (clientSockets s) \<and>
           trace s' = trace s @ [Read (clientSockets s ! i), Says (clientSockets s ! i) (text_of p),
                                 Close (clientSockets s ! i), Delete (clientSockets s ! i)]
      else clientSockets s' = clientSockets s \<and>
           trace s' = trace s @ [Read (clientSockets s ! i), Says (clientSockets s ! i) (text_of p),
                                 Write (clientSockets s ! i) ENTERCMD])"
proof -
  have "length p < length (buffer s)" using len by simp
  from serve_data[OF i rdy rcv len(1) this] show ?thesis by simp
qed

theorem quit_iff_text_witness:
  "(\<exists>s'. serve (sends [(alice, ReadBytes [0x71, 0x75, 0x69, 0x74, 0, 0x21])]) 0
            (one_client\<lparr>readset := {4}\<rparr>) = Inr s' \<and>
      clientSockets s' = [] \<and>
      trace s' = [Fcntl False, Accept 4, Write alice HELLO,
                  Read alice, Says alice [0x71, 0x75, 0x69, 0x74], Close alice, Delete alice]) \<and>
   (\<exists>s'. serve (sends [(alice, ReadBytes [0x51, 0x55, 0x49, 0x54])]) 0
            (one_client\<lparr>readset := {4}\<rparr>) = Inr s' \<and>
      clientSockets s' = [alice] \<and>
      trace s' = [Fcntl False, Accept 4, Write alice HELLO,
                  Read alice, Says alice [0x51, 0x55, 0x49, 0x54], Write alice ENTERCMD])"
proof -
  let ?s = "one_client\<lparr>readset := {4}\<rparr>"
  have i: "0 < length (clientSockets ?s)" by (simp add: one_client_def)
  have rdy: "socket (clientSockets ?s ! 0) \<in> readset ?s" by (simp add: one_client_def alice_def)
  have b: "length (buffer ?s) = 100" by (simp add: one_client_def)
  have 1: "received (sends [(alice, ReadBytes [0x71, 0x75, 0x69, 0x74, 0, 0x21])])
             (clientSockets ?s ! 0) = ReadBytes [0x71, 0x75, 0x69, 0x74, 0, 0x21]"
    by (simp add: one_client_def sends_def)
  have 2: "received (sends [(alice, ReadBytes [0x51, 0x55, 0x49, 0x54])])
             (clientSockets ?s ! 0) = ReadBytes [0x51, 0x55, 0x49, 0x54]"
    by (simp add: one_client_def sends_def)
  from quit_iff_text[OF i rdy 1 _ _ b] quit_iff_text[OF i rdy 2 _ _ b]
  show ?thesis by (simp add: text_of_def one_client_def)
qed

text \<open>
  Counterexample to claim C4 as stated: the five bytes \<^verbatim>\<open>quit\<close> and a zero byte are not
  the four-byte terminator, and the Session is terminated on the client-quit path.
\<close>

theorem quit_counterexample:
  "map_sum id (\<lambda>s. (clientSockets s, trace s))
     (run [connects 4 {}, sends [(alice, ReadBytes [0x71, 0x75, 0x69, 0x74, 0])]]
        (startup 3 ''mu.sock'' [])) =
   Inr ([], [Fcntl False, Accept 4, Write alice HELLO, Fcntl True, Select 5 {4, 3},
             Read alice, Says alice [0x71, 0x75, 0x69, 0x74], Close alice, Delete alice]) \<and>
   [0x71, 0x75, 0x69, 0x74, 0] \<noteq> [0x71, 0x75, 0x69, 0x74 :: byte]"
  by (simp add: eval_simps)

subsection \<open>Prompts\<close>

text \<open>
  Claim C7, as amended: in every state of the loop, each read of a Session of the
  Registry is preceded by one server write to it with nothing on that Session in
  between, the greeting before the Session's first read and the prompt before every
  later one; and after a payload of 1 to 99 bytes whose text before the first zero byte
  is not \<^verbatim>\<open>quit\<close> the Session stays in the Registry and is sent exactly one prompt, so that
  it waits prompted for its next read. The invariant \<open>Conf\<close> holds when \<^verbatim>\<open>main\<close> enters the
  loop and after every step of a process that has not been killed (\<open>Conf_startup\<close>,
  \<open>Conf_accept\<close>, \<open>Conf_serve\<close>, \<open>Conf_scan\<close>, \<open>Conf_main_loop\<close>, \<open>Conf_run\<close>). The claim has a prompt before every command read and
  takes every payload other than the exact terminator as a command.
\<close>

theorem one_prompt_per_read:
  assumes conf: "Conf s" and i: "i < length (clientSockets s)"
    and rdy: "socket (clientSockets s ! i) \<in> readset s"
    and rcv: "received e (clientSockets s ! i) = ReadBytes p"
    and len: "p \<noteq> []" "length p < 100"
    and nq: "text_of p \<noteq> [0x71, 0x75, 0x69, 0x74]"
  shows "(phase (clientSockets s ! i) (trace s) = Greeted \<or>
          phase (clientSockets s ! i) (trace s) = Prompted) \<and>
     (\<exists>s'. serve e i s = Inr s' \<and> clientSockets s' = clientSockets s \<and>
        trace s' = trace s @ [Read (clientSockets s ! i), Says (clientSockets s ! i) (text_of p),
                              Write (clientSockets s ! i) ENTERCMD] \<and>
        phase (clientSockets s ! i) (trace s') = Prompted \<and> Conf s')"
proof -
  let ?c = "clientSockets s ! i"
  let ?s' = "s\<lparr>buffer := (p @ drop (length p) (buffer s))[length p := 0],
               trace := trace s @ [Read ?c, Says ?c (text_of p), Write ?c ENTERCMD],
               killed := (killed s \<or> broken e ?c)\<rparr>"
  have "length p < length (buffer s)" using conf len by (simp add: Conf_def)
  from serve_data[OF i rdy rcv len(1) this] nq have srv: "serve e i s = Inr ?s'" by simp
  have cin: "?c \<in> set (clientSockets s)" using i by simp
  have w: "phase ?c (trace s) = Greeted \<or> phase ?c (trace s) = Prompted"
    using conf cin by (simp add: Conf_def Inv_def waiting_def)
  have ph: "phase ?c (trace ?s') = Prompted" using w by (auto simp: phase_append)
  have "Conf ?s'" using conf srv by (rule Conf_serve)
  with w srv ph show ?thesis by (intro conjI exI[of _ ?s']) simp_all
qed

theorem one_prompt_per_read_witness:
  "phase alice (trace (one_client\<lparr>readset := {4}\<rparr>)) = Greeted \<and>
   (\<exists>s'. serve (sends [(alice, ReadBytes [0x6C, 0x73, 0])]) 0 (one_client\<lparr>readset := {4}\<rparr>) =
            Inr s' \<and>
      clientSockets s' = [alice] \<and>
      trace s' = [Fcntl False, Accept 4, Write alice HELLO,
                  Read alice, Says alice [0x6C, 0x73], Write alice ENTERCMD] \<and>
      phase alice (trace s') = Prompted)"
proof -
  let ?s = "one_client\<lparr>readset := {4}\<rparr>"
  let ?e = "sends [(alice, ReadBytes [0x6C, 0x73, 0])]"
  have conf: "Conf ?s" using Conf_one_client by (simp add: Conf_readset)
  have i: "0 < length (clientSockets ?s)" by (simp add: one_client_def)
  have rdy: "socket (clientSockets ?s ! 0) \<in> readset ?s" by (simp add: one_client_def alice_def)
  have rcv: "received ?e (clientSockets ?s ! 0) = ReadBytes [0x6C, 0x73, 0]"
    by (simp add: one_client_def sends_def)
  have nq: "text_of [0x6C, 0x73, 0 :: byte] \<noteq> [0x71, 0x75, 0x69, 0x74]"
    by (simp add: text_of_def)
  have g: "phase alice (trace ?s) = Greeted" by (simp add: one_client_def phase_def)
  from one_prompt_per_read[OF conf i rdy rcv _ _ nq] obtain s' where
    "serve ?e 0 ?s = Inr s'" "clientSockets s' = clientSockets ?s"
    "trace s' = trace ?s @ [Read (clientSockets ?s ! 0),
        Says (clientSockets ?s ! 0) (text_of [0x6C, 0x73, 0]), Write (clientSockets ?s ! 0) ENTERCMD]"
    "phase (clientSockets ?s ! 0) (trace s') = Prompted"
    by auto
  then have "serve ?e 0 ?s = Inr s' \<and> clientSockets s' = [alice] \<and>
      trace s' = [Fcntl False, Accept 4, Write alice HELLO,
                  Read alice, Says alice [0x6C, 0x73], Write alice ENTERCMD] \<and>
      phase alice (trace s') = Prompted"
    by (simp add: one_client_def text_of_def)
  with g show ?thesis by blast
qed

text \<open>
  Counterexample to claim C7 as stated: after the connection only the greeting has been
  sent, and the first payload is read and handled as a command; the six bytes \<^verbatim>\<open>quit\<close>,
  zero, \<^verbatim>\<open>!\<close> are not the terminator and are under the maximum size, and the Session
  is closed without a prompt.
\<close>

theorem one_prompt_per_read_counterexample:
  "map_sum id (\<lambda>s. (clientSockets s, payloads (trace s)))
     (run [connects 4 {}] (startup 3 ''mu.sock'' [])) = Inr ([alice], [HELLO]) \<and>
   map_sum id (\<lambda>s. (clientSockets s, trace s))
     (run [connects 4 {}, sends [(alice, ReadBytes [0x71, 0x75, 0x69, 0x74, 0, 0x21])]]
        (startup 3 ''mu.sock'' [])) =
   Inr ([], [Fcntl False, Accept 4, Write alice HELLO, Fcntl True, Select 5 {4, 3},
             Read alice, Says alice [0x71, 0x75, 0x69, 0x74], Close alice, Delete alice]) \<and>
   [0x71, 0x75, 0x69, 0x74, 0, 0x21] \<noteq> [0x71, 0x75, 0x69, 0x74 :: byte] \<and>
   length [0x71, 0x75, 0x69, 0x74, 0, 0x21 :: byte] < 100"
  by (simp add: eval_simps)

subsection \<open>Accepting\<close>

text \<open>
  Claim C5: a failure of \<^verbatim>\<open>accept\<close> in blocking mode (empty Registry) ends the process; in
  non-blocking mode an \<^verbatim>\<open>accept\<close> that would block does not fail the pass; and no Session
  is appended when \<^verbatim>\<open>accept\<close> returns no connection. The code never looks at what
  \<^verbatim>\<open>accept\<close> returned (lines 132 and 163), where the results of \<^verbatim>\<open>socket\<close>, \<^verbatim>\<open>bind\<close>,
  \<^verbatim>\<open>listen\<close> and \<^verbatim>\<open>read\<close> are tested. First run: the Registry is empty and \<^verbatim>\<open>accept\<close>
  returns \<open>-1\<close>; the pass ends with a Session of descriptor \<open>-1\<close> in the Registry and the
  process alive. Second run: alice is connected, \<^verbatim>\<open>select\<close> reports the listening socket
  and the non-blocking \<^verbatim>\<open>accept\<close> returns \<open>-1\<close>; lines 162-170 append a Session of
  descriptor \<open>-1\<close> behind alice.
\<close>

theorem accept_failure_appends_session:
  "map_sum id (\<lambda>s. (clientSockets s, trace s, killed s))
     (run [connects (- 1) {}] (startup 3 ''mu.sock'' [])) =
   Inr ([\<lparr>id' = 1, socket = - 1\<rparr>],
        [Fcntl False, Accept (- 1), Write \<lparr>id' = 1, socket = - 1\<rparr> HELLO], False) \<and>
   run [connects 4 {}] (startup 3 ''mu.sock'' []) = Inr one_client \<and>
   select' (fst (prepareFDReadSet (fcntl' True one_client)) + 1)
       (ready (connects (- 1) {3})) (snd (prepareFDReadSet (fcntl' True one_client))) =
     (1, polled {3}) \<and>
   serverSocket (polled {3}) \<in> readset (polled {3}) \<and>
   map_sum id (\<lambda>s. (clientSockets s, trace s, killed s))
     (accept_client (connects (- 1) {3}) (polled {3})) =
   Inr ([alice, \<lparr>id' = 2, socket = - 1\<rparr>],
        [Fcntl False, Accept 4, Write alice HELLO, Fcntl True, Select 5 {4, 3},
         Accept (- 1), Write \<lparr>id' = 2, socket = - 1\<rparr> HELLO], False)"
proof -
  have 1: "map_sum id (\<lambda>s. (clientSockets s, trace s, killed s))
     (run [connects (- 1) {}] (startup 3 ''mu.sock'' [])) =
   Inr ([\<lparr>id' = 1, socket = - 1\<rparr>],
        [Fcntl False, Accept (- 1), Write \<lparr>id' = 1, socket = - 1\<rparr> HELLO], False)"
    by (simp add: eval_simps)
  have 2: "select' (fst (prepareFDReadSet (fcntl' True one_client)) + 1)
       (ready (connects (- 1) {3})) (snd (prepareFDReadSet (fcntl' True one_client))) =
     (1, polled {3})"
    by (simp add: eval_simps one_client_def polled_def)
  have 3: "map_sum id (\<lambda>s. (clientSockets s, trace s, killed s))
     (accept_client (connects (- 1) {3}) (polled {3})) =
   Inr ([alice, \<lparr>id' = 2, socket = - 1\<rparr>],
        [Fcntl False, Accept 4, Write alice HELLO, Fcntl True, Select 5 {4, 3},
         Accept (- 1), Write \<lparr>id' = 2, socket = - 1\<rparr> HELLO], False)"
    by (simp add: eval_simps polled_def)
  have 4: "serverSocket (polled {3}) \<in> readset (polled {3})" by (simp add: polled_def)
  from 1 2 3 4 run_one_client show ?thesis by simp
qed

subsection \<open>The handshake\<close>

text \<open>
  Claim C3, as amended: for every \<^verbatim>\<open>accept\<close> that returns a connection, the server writes
  the greeting to it and, when that write does not end the process, appends the Session
  to the Registry at once, without waiting for an acknowledgment; the Session then waits
  with the greeting outstanding. With an empty Registry that is the whole pass. What the
  client sends first is received later, by the Session's read in a multiplexed scan; a
  read of a registered Session that returns 0 bytes closes the Session and removes it
  from the Registry. The claim has the Session appended only after a successful send and
  receive.
\<close>

theorem greeting_then_deferred_acknowledgment:
  assumes conf: "Conf s" and live: "\<not> killed s" and cnt: "count s \<noteq> 2147483647"
    and fd: "0 \<le> accepted e"
    and peer: "\<not> broken e \<lparr>id' = count s + 1, socket = accepted e\<rparr>"
  shows "(\<exists>s'. accept_client e s = Inr s' \<and>
            clientSockets s' = clientSockets s @ [\<lparr>id' = count s + 1, socket = accepted e\<rparr>] \<and>
            trace s' = trace s @ [Accept (accepted e),
                                  Write \<lparr>id' = count s + 1, socket = accepted e\<rparr> HELLO] \<and>
            phase \<lparr>id' = count s + 1, socket = accepted e\<rparr> (trace s') = Greeted \<and>
            \<not> killed s' \<and> Conf s') \<and>
         (clientSockets s = [] \<longrightarrow>
            (\<exists>s'. main_loop e s = Inr s' \<and>
               clientSockets s' = [\<lparr>id' = count s + 1, socket = accepted e\<rparr>] \<and>
               trace s' = trace s @ [Fcntl False, Accept (accepted e),
                                     Write \<lparr>id' = count s + 1, socket = accepted e\<rparr> HELLO] \<and>
               phase \<lparr>id' = count s + 1, socket = accepted e\<rparr> (trace s') = Greeted \<and>
               \<not> killed s' \<and> Conf s')) \<and>
         (\<forall>t e' i. Conf t \<longrightarrow> i < length (clientSockets t) \<longrightarrow>
            0 \<le> socket (clientSockets t ! i) \<longrightarrow>
            socket (clientSockets t ! i) \<in> readset t \<longrightarrow>
            received e' (clientSockets t ! i) = ReadBytes [] \<longrightarrow>
            (\<exists>t'. serve e' i t = Inr t' \<and>
               clientSockets t' = take i (clientSockets t) @ drop (Suc i) (clientSockets t) \<and>
               clientSockets t ! i \<notin> set (clientSockets t') \<and>
               trace t' = trace t @ [Read (clientSockets t ! i), Close (clientSockets t ! i),
                                     Delete (clientSockets t ! i)] \<and>
               phase (clientSockets t ! i) (trace t') = Gone \<and> Conf t'))"
proof (intro conjI allI impI)
  let ?c = "\<lparr>id' = count s + 1, socket = accepted e\<rparr>"
  show "\<exists>s'. accept_client e s = Inr s' \<and>
      clientSockets s' = clientSockets s @ [?c] \<and>
      trace s' = trace s @ [Accept (accepted e), Write ?c HELLO] \<and>
      phase ?c (trace s') = Greeted \<and> \<not> killed s' \<and> Conf s'"
    using conf live cnt peer by (rule accept_client_greets)
next
  let ?c = "\<lparr>id' = count s + 1, socket = accepted e\<rparr>"
  let ?s = "fcntl' False s"
  assume empty: "clientSockets s = []"
  have m: "main_loop e s = accept_client e ?s" using empty by (simp add: main_loop_def)
  have c: "Conf ?s" unfolding fcntl'_def using conf by (rule Conf_quiet) simp
  have l: "\<not> killed ?s" using live by (simp add: fcntl'_def)
  have n: "count ?s \<noteq> 2147483647" using cnt by (simp add: fcntl'_def)
  have p: "\<not> broken e \<lparr>id' = count ?s + 1, socket = accepted e\<rparr>"
    using peer by (simp add: fcntl'_def)
  from accept_client_greets[OF c l n p] obtain s' where
    "accept_client e ?s = Inr s'"
    "clientSockets s' = clientSockets ?s @ [\<lparr>id' = count ?s + 1, socket = accepted e\<rparr>]"
    "trace s' = trace ?s @ [Accept (accepted e),
                            Write \<lparr>id' = count ?s + 1, socket = accepted e\<rparr> HELLO]"
    "phase \<lparr>id' = count ?s + 1, socket = accepted e\<rparr> (trace s') = Greeted"
    "\<not> killed s'" "Conf s'"
    by blast
  then show "\<exists>s'. main_loop e s = Inr s' \<and> clientSockets s' = [?c] \<and>
      trace s' = trace s @ [Fcntl False, Accept (accepted e), Write ?c HELLO] \<and>
      phase ?c (trace s') = Greeted \<and> \<not> killed s' \<and> Conf s'"
    using m empty by (intro exI[of _ s']) (simp add: fcntl'_def)
next
  fix t :: server and e' :: env and i :: nat
  assume "Conf t" "i < length (clientSockets t)" "socket (clientSockets t ! i) \<in> readset t"
    "received e' (clientSockets t ! i) = ReadBytes []"
  then show "\<exists>t'. serve e' i t = Inr t' \<and>
      clientSockets t' = take i (clientSockets t) @ drop (Suc i) (clientSockets t) \<and>
      clientSockets t ! i \<notin> set (clientSockets t') \<and>
      trace t' = trace t @ [Read (clientSockets t ! i), Close (clientSockets t ! i),
                            Delete (clientSockets t ! i)] \<and>
      phase (clientSockets t ! i) (trace t') = Gone \<and> Conf t'"
    by (rule serve_eof)
qed

theorem greeting_then_deferred_acknowledgment_witness:
  "(\<exists>s'. accept_client (connects 5 {3}) (polled {3}) = Inr s' \<and>
      clientSockets s' = [alice, bob] \<and>
      trace s' = [Fcntl False, Accept 4, Write alice HELLO, Fcntl True, Select 5 {4, 3},
                  Accept 5, Write bob HELLO] \<and>
      phase bob (trace s') = Greeted \<and> \<not> killed s') \<and>
   (\<exists>s'. main_loop (connects 4 {}) (startup 3 ''mu.sock'' []) = Inr s' \<and>
      clientSockets s' = [alice] \<and>
      trace s' = [Fcntl False, Accept 4, Write alice HELLO] \<and>
      phase alice (trace s') = Greeted \<and> \<not> killed s') \<and>
   (\<exists>t'. serve (sends [(alice, ReadBytes [])]) 0 (polled {4}) = Inr t' \<and>
      clientSockets t' = [] \<and>
      trace t' = [Fcntl False, Accept 4, Write alice HELLO, Fcntl True, Select 5 {4, 3},
                  Read alice, Close alice, Delete alice] \<and>
      phase alice (trace t') = Gone)"
proof -
  let ?s = "startup 3 ''mu.sock'' []"
  let ?p = "polled {3}"
  let ?t = "polled {4}"
  let ?e = "sends [(alice, ReadBytes [])]"
  have c1: "Conf ?p" by (rule Conf_polled)
  have l1: "\<not> killed ?p" by (simp add: polled_def)
  have n1: "count ?p \<noteq> 2147483647" by (simp add: polled_def)
  have f1: "0 \<le> accepted (connects 5 {3})" by (simp add: connects_def)
  have p1: "\<not> broken (connects 5 {3}) \<lparr>id' = count ?p + 1, socket = accepted (connects 5 {3})\<rparr>"
    by (simp add: connects_def)
  note th1 = greeting_then_deferred_acknowledgment[OF c1 l1 n1 f1 p1]
  have c2: "Conf ?s" by (rule Conf_startup)
  have l2: "\<not> killed ?s" by (simp add: startup_def)
  have n2: "count ?s \<noteq> 2147483647" by (simp add: startup_def)
  have f2: "0 \<le> accepted (connects 4 {})" by (simp add: connects_def)
  have p2: "\<not> broken (connects 4 {}) \<lparr>id' = count ?s + 1, socket = accepted (connects 4 {})\<rparr>"
    by (simp add: connects_def)
  note th2 = greeting_then_deferred_acknowledgment[OF c2 l2 n2 f2 p2]
  from th1 have "\<exists>s'. accept_client (connects 5 {3}) ?p = Inr s' \<and>
      clientSockets s' =
        clientSockets ?p @ [\<lparr>id' = count ?p + 1, socket = accepted (connects 5 {3})\<rparr>] \<and>
      trace s' = trace ?p @ [Accept (accepted (connects 5 {3})),
        Write \<lparr>id' = count ?p + 1, socket = accepted (connects 5 {3})\<rparr> HELLO] \<and>
      phase \<lparr>id' = count ?p + 1, socket = accepted (connects 5 {3})\<rparr> (trace s') = Greeted \<and>
      \<not> killed s' \<and> Conf s'"
    by (rule conjunct1)
  then have a: "\<exists>s'. accept_client (connects 5 {3}) ?p = Inr s' \<and>
      clientSockets s' = [alice, bob] \<and>
      trace s' = [Fcntl False, Accept 4, Write alice HELLO, Fcntl True, Select 5 {4, 3},
                  Accept 5, Write bob HELLO] \<and>
      phase bob (trace s') = Greeted \<and> \<not> killed s'"
    by (auto simp: polled_def connects_def bob_def)
  have e2: "clientSockets ?s = []" by (simp add: startup_def)
  from th2 have "clientSockets ?s = [] \<longrightarrow>
      (\<exists>s'. main_loop (connects 4 {}) ?s = Inr s' \<and>
         clientSockets s' = [\<lparr>id' = count ?s + 1, socket = accepted (connects 4 {})\<rparr>] \<and>
         trace s' = trace ?s @ [Fcntl False, Accept (accepted (connects 4 {})),
           Write \<lparr>id' = count ?s + 1, socket = accepted (connects 4 {})\<rparr> HELLO] \<and>
         phase \<lparr>id' = count ?s + 1, socket = accepted (connects 4 {})\<rparr> (trace s') = Greeted \<and>
         \<not> killed s' \<and> Conf s')"
    by blast
  from this[rule_format, OF e2] have b: "\<exists>s'. main_loop (connects 4 {}) ?s = Inr s' \<and>
      clientSockets s' = [alice] \<and>
      trace s' = [Fcntl False, Accept 4, Write alice HELLO] \<and>
      phase alice (trace s') = Greeted \<and> \<not> killed s'"
    by (auto simp: startup_def connects_def alice_def)
  have ct: "Conf ?t" by (rule Conf_polled)
  have i: "0 < length (clientSockets ?t)" by (simp add: polled_def)
  have v: "0 \<le> socket (clientSockets ?t ! 0)" by (simp add: polled_def alice_def)
  have rdy: "socket (clientSockets ?t ! 0) \<in> readset ?t" by (simp add: polled_def alice_def)
  have eof: "received ?e (clientSockets ?t ! 0) = ReadBytes []"
    by (simp add: polled_def sends_def)
  from th2 have "\<forall>t e' i. Conf t \<longrightarrow> i < length (clientSockets t) \<longrightarrow>
            0 \<le> socket (clientSockets t ! i) \<longrightarrow>
            socket (clientSockets t ! i) \<in> readset t \<longrightarrow>
            received e' (clientSockets t ! i) = ReadBytes [] \<longrightarrow>
            (\<exists>t'. serve e' i t = Inr t' \<and>
               clientSockets t' = take i (clientSockets t) @ drop (Suc i) (clientSockets t) \<and>
               clientSockets t ! i \<notin> set (clientSockets t') \<and>
               trace t' = trace t @ [Read (clientSockets t ! i), Close (clientSockets t ! i),
                                     Delete (clientSockets t ! i)] \<and>
               phase (clientSockets t ! i) (trace t') = Gone \<and> Conf t')"
    by blast
  from this[rule_format, OF ct i v rdy eof] have c: "\<exists>t'. serve ?e 0 ?t = Inr t' \<and>
      clientSockets t' = [] \<and>
      trace t' = [Fcntl False, Accept 4, Write alice HELLO, Fcntl True, Select 5 {4, 3},
                  Read alice, Close alice, Delete alice] \<and>
      phase alice (trace t') = Gone"
    by (auto simp: polled_def)
  from a b c show ?thesis by blast
qed

text \<open>
  Counterexample to claim C3 as stated: after the first pass the Session is in the
  Registry and nothing has been received from it.
\<close>

theorem handshake_counterexample:
  "run [connects 4 {}] (startup 3 ''mu.sock'' []) = Inr one_client \<and>
   alice \<in> set (clientSockets one_client) \<and>
   trace one_client = [Fcntl False, Accept 4, Write alice HELLO] \<and>
   Read alice \<notin> set (trace one_client)"
  by (simp add: eval_simps one_client_def)

end
